theory Spec2Isabelle
  imports Complex_Main "HOL-Library.Word" "HOL-Library.AList"
begin

section \<open>Constants and layout of btree.h (volatile variant, src/concurrent/src/btree.h)\<close>

text \<open>
  Keys are \<open>int64_t\<close> and are compared as signed numbers (\<open><s\<close>, \<open>\<le>s\<close>); value handles,
  child pointers and sibling pointers are all raw 64-bit addresses (\<open>char *\<close>, \<open>page *\<close>),
  with \<open>0\<close> for \<open>NULL\<close>.
\<close>

type_synonym entry_key_t = "64 word"
type_synonym addr = "64 word"

definition LONG_MAX :: entry_key_t where
  "LONG_MAX = 0x7FFFFFFFFFFFFFFF"

definition PAGESIZE :: int where
  "PAGESIZE = 512"

definition CACHE_LINE_SIZE :: int where
  "CACHE_LINE_SIZE = 64"

text \<open>
  \<open>sizeof(header)\<close> on the LP64 target the code is written for (it casts pointers to
  \<open>uint64_t\<close> and uses x86-64 instructions): two pointers, \<open>uint32_t level\<close>, two
  \<open>uint8_t\<close>, \<open>int16_t last_index\<close>, the mutex pointer, \<open>highest\<close> and \<open>dummy[1]\<close>.
\<close>

definition sizeof_header :: int where
  "sizeof_header = 8 + 8 + 4 + 1 + 1 + 2 + 8 + 8 + 8"

definition sizeof_entry :: int where
  "sizeof_entry = 8 + 8"

definition cardinality :: nat where
  "cardinality = nat ((PAGESIZE - sizeof_header) div sizeof_entry)"

definition IS_FORWARD :: "8 word \<Rightarrow> bool" where
  "IS_FORWARD c = (uint c mod 2 = 0)"

section \<open>Entries, headers and pages\<close>

record entry =
  key :: entry_key_t
  ptr :: addr

text \<open>
  The header's constructor assigns \<open>leftmost_ptr\<close>, \<open>sibling_ptr\<close>, \<open>switch_counter\<close>,
  \<open>last_index\<close> and \<open>is_deleted\<close>; \<open>level\<close> is assigned by the page constructors.
  Nothing assigns \<open>highest\<close> there, and \<open>operator new\<close> is \<open>posix_memalign\<close>, which
  does not clear memory: the field is indeterminate until a split writes it. It is
  modelled as an option, \<open>None\<close> while indeterminate, and reading it then is an error.
  The mutex is not modelled: execution is sequential, so lock and unlock do nothing.
  \<open>last_index\<close> is \<open>int16_t\<close> and stays within \<open>-1 .. cardinality\<close>.
\<close>

record header =
  leftmost_ptr :: addr
  sibling_ptr :: addr
  level :: nat
  switch_counter :: "8 word"
  is_deleted :: "8 word"
  last_index :: int
  highest :: "entry_key_t option"

record page = header +
  records :: "entry list"

datatype error = OutOfFuel | OutOfBounds | InvalidPointer | UninitRead | OutOfMemory

text \<open>A \<open>clflush(data, len)\<close> call: the address, the length, and the page as it is then.\<close>

datatype event = Clflush addr int page | ClflushRoot addr

definition entry_ctor :: entry where
  "entry_ctor = \<lparr>key = LONG_MAX, ptr = 0\<rparr>"

text \<open>\<open>page(uint32_t level = 0)\<close>\<close>

definition page_ctor :: "nat \<Rightarrow> page" where
  "page_ctor lvl =
     \<lparr>leftmost_ptr = 0, sibling_ptr = 0, level = lvl, switch_counter = 0, is_deleted = 0,
      last_index = - 1, highest = None,
      records = (replicate cardinality entry_ctor)[0 := entry_ctor\<lparr>ptr := 0\<rparr>]\<rparr>"

text \<open>\<open>page(page* left, entry_key_t key, page* right, uint32_t level)\<close>, called when the tree grows.\<close>

definition page_ctor_root :: "addr \<Rightarrow> addr \<Rightarrow> entry_key_t \<Rightarrow> addr \<Rightarrow> nat \<Rightarrow> page \<times> event list" where
  "page_ctor_root this left k right lvl =
     (let rs0 = replicate cardinality entry_ctor;
          rs1 = rs0[0 := \<lparr>key = k, ptr = right\<rparr>];
          rs2 = rs1[1 := (rs1 ! 1)\<lparr>ptr := 0\<rparr>];
          pg = \<lparr>leftmost_ptr = left, sibling_ptr = 0, level = lvl, switch_counter = 0,
                is_deleted = 0, last_index = 0, highest = None, records = rs2\<rparr>
      in (pg, [Clflush this PAGESIZE pg]))"

definition rec_addr :: "addr \<Rightarrow> nat \<Rightarrow> addr" where
  "rec_addr this i = this + of_int (sizeof_header + int i * sizeof_entry)"

text \<open>The flush test shared by the shift loops of \<open>insert_key\<close> and \<open>remove_key\<close>.\<close>

definition do_flush :: "addr \<Rightarrow> bool" where
  "do_flush records_ptr =
     (let remainder = uint records_ptr mod CACHE_LINE_SIZE
      in remainder = 0 \<or>
         ((remainder + sizeof_entry) div CACHE_LINE_SIZE = 1 \<and>
          (remainder + sizeof_entry) mod CACHE_LINE_SIZE \<noteq> 0))"

section \<open>\<open>page::count\<close>\<close>

text \<open>
  The inner \<open>while(count >= 0 && records[count].ptr != NULL)\<close>, stepping forward or
  backward. An index past the array is an error. The outer \<open>do ... while\<close> re-reads
  \<open>switch_counter\<close>, which no one changes in a sequential run: its body runs once.
\<close>

function count_scan :: "bool \<Rightarrow> entry list \<Rightarrow> int \<Rightarrow> error + int" where
  "count_scan fwd rs c =
     (if c < 0 then Inr c
      else if int cardinality \<le> c then Inl OutOfBounds
      else if ptr (rs ! nat c) \<noteq> 0 then count_scan fwd rs (if fwd then c + 1 else c - 1)
      else Inr c)"
  by pat_completeness auto
termination
  by (relation "measure (\<lambda>(fwd, rs, c). if fwd then nat (int cardinality - c) else nat (c + 1))") auto

declare count_scan.simps [simp del]

definition count :: "page \<Rightarrow> error + nat" where
  "count pg =
     (case count_scan (IS_FORWARD (switch_counter pg)) (records pg) (last_index pg + 1) of
        Inl e \<Rightarrow> Inl e
      | Inr c \<Rightarrow>
          if c < 0 then (case count_scan True (records pg) 0 of Inl e \<Rightarrow> Inl e | Inr c' \<Rightarrow> Inr (nat c'))
          else Inr (nat c))"

section \<open>\<open>page::insert_key\<close> (FAST)\<close>

text \<open>
  The shift loop \<open>for(i = *num_entries - 1; i >= 0; i--)\<close>; the argument is \<open>i + 1\<close>, so
  \<open>0\<close> is the loop's exit with \<open>inserted == 0\<close>. The writes are in the source's order.
\<close>

fun fast_shift :: "addr \<Rightarrow> entry_key_t \<Rightarrow> addr \<Rightarrow> bool \<Rightarrow> nat \<Rightarrow> page \<times> event list \<Rightarrow> page \<times> event list" where
  "fast_shift this k p flush 0 (pg, evs) =
     (let rs = records pg;
          rs1 = rs[0 := (rs ! 0)\<lparr>ptr := leftmost_ptr pg\<rparr>];
          rs2 = rs1[0 := (rs1 ! 0)\<lparr>key := k\<rparr>];
          rs3 = rs2[0 := (rs2 ! 0)\<lparr>ptr := p\<rparr>];
          pg' = pg\<lparr>records := rs3\<rparr>
      in (pg', evs @ (if flush then [Clflush (rec_addr this 0) sizeof_entry pg'] else [])))"
| "fast_shift this k p flush (Suc i) (pg, evs) =
     (let rs = records pg in
      if k <s key (rs ! i) then
        (let rs1 = rs[Suc i := (rs ! Suc i)\<lparr>ptr := ptr (rs ! i)\<rparr>];
             rs2 = rs1[Suc i := (rs1 ! Suc i)\<lparr>key := key (rs1 ! i)\<rparr>];
             pg' = pg\<lparr>records := rs2\<rparr>
         in fast_shift this k p flush i
              (pg', evs @ (if flush \<and> do_flush (rec_addr this (Suc i))
                           then [Clflush (rec_addr this (Suc i)) CACHE_LINE_SIZE pg'] else [])))
      else
        (let rs1 = rs[Suc i := (rs ! Suc i)\<lparr>ptr := ptr (rs ! i)\<rparr>];
             rs2 = rs1[Suc i := (rs1 ! Suc i)\<lparr>key := k\<rparr>];
             rs3 = rs2[Suc i := (rs2 ! Suc i)\<lparr>ptr := p\<rparr>];
             pg' = pg\<lparr>records := rs3\<rparr>
         in (pg', evs @ (if flush then [Clflush (rec_addr this (Suc i)) sizeof_entry pg'] else []))))"

text \<open>
  \<open>insert_key(key, ptr, num_entries, flush)\<close>. Every call site leaves
  \<open>update_last_index\<close> at its default \<open>true\<close>. The caller's \<open>*num_entries\<close> becomes
  \<open>num_entries + 1\<close>. A write to \<open>records[num_entries + 1]\<close> past the array is an error.
\<close>

definition insert_key :: "addr \<Rightarrow> entry_key_t \<Rightarrow> addr \<Rightarrow> nat \<Rightarrow> bool \<Rightarrow> page \<Rightarrow> error + page \<times> event list" where
  "insert_key this k p num_entries flush pg0 =
     (let pg = (if \<not> IS_FORWARD (switch_counter pg0)
                then pg0\<lparr>switch_counter := switch_counter pg0 + 1\<rparr> else pg0)
      in if cardinality \<le> num_entries + 1 then Inl OutOfBounds
         else if num_entries = 0 then
           (let rs = records pg;
                rs1 = rs[0 := \<lparr>key = k, ptr = p\<rparr>];
                rs2 = rs1[1 := (rs1 ! 1)\<lparr>ptr := 0\<rparr>];
                pg' = pg\<lparr>records := rs2\<rparr>
            in Inr (pg'\<lparr>last_index := int num_entries\<rparr>,
                    if flush then [Clflush this CACHE_LINE_SIZE pg'] else []))
         else
           (let rs = records pg;
                rs1 = rs[num_entries + 1 := (rs ! (num_entries + 1))\<lparr>ptr := ptr (rs ! num_entries)\<rparr>];
                pg1 = pg\<lparr>records := rs1\<rparr>;
                evs = (if flush \<and> uint (rec_addr this (num_entries + 1) + 8) mod CACHE_LINE_SIZE = 0
                       then [Clflush (rec_addr this (num_entries + 1) + 8) 8 pg1] else []);
                (pg', evs') = fast_shift this k p flush num_entries (pg1, evs)
            in Inr (pg'\<lparr>last_index := int num_entries\<rparr>, evs')))"

section \<open>\<open>page::remove_key\<close>\<close>

text \<open>
  The body of the loop \<open>for(i = 0; records[i].ptr != NULL; ++i)\<close>, on the flag
  \<open>shift\<close>, the page and the flushes made so far.
\<close>

definition remove_body :: "addr \<Rightarrow> entry_key_t \<Rightarrow> nat \<Rightarrow> bool \<times> page \<times> event list \<Rightarrow> bool \<times> page \<times> event list" where
  "remove_body this k i st =
     (case st of (shift, pg, evs) \<Rightarrow>
        (let rs = records pg;
             hit = (\<not> shift \<and> key (rs ! i) = k);
             rs1 = (if hit then rs[i := (rs ! i)\<lparr>ptr := (if i = 0 then leftmost_ptr pg else ptr (rs ! (i - 1)))\<rparr>]
                    else rs)
         in if shift \<or> hit then
              (let rs2 = rs1[i := (rs1 ! i)\<lparr>key := key (rs1 ! (i + 1))\<rparr>];
                   rs3 = rs2[i := (rs2 ! i)\<lparr>ptr := ptr (rs2 ! (i + 1))\<rparr>];
                   pg' = pg\<lparr>records := rs3\<rparr>
               in (True, pg', evs @ (if do_flush (rec_addr this i)
                                     then [Clflush (rec_addr this i) CACHE_LINE_SIZE pg'] else [])))
            else (False, pg\<lparr>records := rs1\<rparr>, evs)))"

text \<open>
  The loop itself. It reads \<open>records[i]\<close> and, when shifting, \<open>records[i + 1]\<close>; an
  index past the array is an error (without a shift, the next test of the loop
  condition would read \<open>records[i + 1]\<close> as well).
\<close>

function remove_loop :: "addr \<Rightarrow> entry_key_t \<Rightarrow> nat \<Rightarrow> bool \<times> page \<times> event list \<Rightarrow> error + bool \<times> page \<times> event list" where
  "remove_loop this k i st =
     (if cardinality \<le> i then Inl OutOfBounds
      else if ptr (records (fst (snd st)) ! i) = 0 then Inr st
      else if cardinality \<le> i + 1 then Inl OutOfBounds
      else remove_loop this k (i + 1) (remove_body this k i st))"
  by pat_completeness auto
termination
  by (relation "measure (\<lambda>(this, k, i, st). cardinality - i)") auto

declare remove_loop.simps [simp del]

definition remove_key :: "addr \<Rightarrow> entry_key_t \<Rightarrow> page \<Rightarrow> error + bool \<times> page \<times> event list" where
  "remove_key this k pg0 =
     (let pg = (if IS_FORWARD (switch_counter pg0)
                then pg0\<lparr>switch_counter := switch_counter pg0 + 1\<rparr> else pg0)
      in case remove_loop this k 0 (False, pg, []) of
           Inl e \<Rightarrow> Inl e
         | Inr (shift, pg', evs) \<Rightarrow>
             Inr (shift, if shift then pg'\<lparr>last_index := last_index pg' - 1\<rparr> else pg', evs))"

section \<open>Memory and the tree object\<close>

text \<open>
  Memory is a table from page addresses to pages. \<open>operator new\<close> (\<open>posix_memalign\<close>
  with alignment 64) is outside the program; it is modelled as handing out consecutive
  \<open>PAGESIZE\<close>-byte blocks from \<open>heap_base\<close>, and as failing when the next block is not
  free. \<open>flushed\<close> is the sequence of \<open>clflush\<close> calls made so far.
\<close>

record state =
  heap :: "(addr \<times> page) list"
  root :: addr
  height :: int
  flushed :: "event list"

definition heap_base :: addr where
  "heap_base = 0x100000"

definition page_at :: "state \<Rightarrow> addr \<Rightarrow> error + page" where
  "page_at s a = (case map_of (heap s) a of None \<Rightarrow> Inl InvalidPointer | Some pg \<Rightarrow> Inr pg)"

definition set_page :: "addr \<Rightarrow> page \<Rightarrow> state \<Rightarrow> state" where
  "set_page a pg s = s\<lparr>heap := AList.update a pg (heap s)\<rparr>"

definition log_events :: "event list \<Rightarrow> state \<Rightarrow> state" where
  "log_events evs s = s\<lparr>flushed := flushed s @ evs\<rparr>"

definition alloc :: "state \<Rightarrow> error + addr" where
  "alloc s =
     (let a = heap_base + of_int (PAGESIZE * int (length (heap s)))
      in if a = 0 \<or> map_of (heap s) a \<noteq> None then Inl OutOfMemory else Inr a)"

text \<open>\<open>btree::btree()\<close>\<close>

definition btree_ctor :: state where
  "btree_ctor = \<lparr>heap = [(heap_base, page_ctor 0)], root = heap_base, height = 1, flushed = []\<rparr>"

definition setNewRoot :: "addr \<Rightarrow> state \<Rightarrow> state" where
  "setNewRoot new_root s =
     s\<lparr>root := new_root, height := height s + 1, flushed := flushed s @ [ClflushRoot new_root]\<rparr>"

section \<open>\<open>page::linear_search\<close>\<close>

text \<open>
  The sibling test \<open>(t = hdr.sibling_ptr) && key >= t->hdr.highest\<close>, which
  \<open>linear_search\<close> and \<open>store\<close> share.
\<close>

definition overshoot :: "state \<Rightarrow> page \<Rightarrow> entry_key_t \<Rightarrow> error + bool" where
  "overshoot s pg k =
     (if sibling_ptr pg = 0 then Inr False
      else case page_at s (sibling_ptr pg) of
             Inl e \<Rightarrow> Inl e
           | Inr sp \<Rightarrow> (case highest sp of None \<Rightarrow> Inl UninitRead | Some h \<Rightarrow> Inr (h \<le>s k)))"

text \<open>Leaf, left to right: \<open>for(i = 1; records[i].ptr != NULL; ++i)\<close>.\<close>

function leaf_fwd :: "entry list \<Rightarrow> entry_key_t \<Rightarrow> nat \<Rightarrow> error + addr" where
  "leaf_fwd rs k i =
     (if cardinality \<le> i then Inl OutOfBounds
      else if ptr (rs ! i) = 0 then Inr 0
      else if key (rs ! i) = k \<and> ptr (rs ! (i - 1)) \<noteq> ptr (rs ! i) then Inr (ptr (rs ! i))
      else leaf_fwd rs k (i + 1))"
  by pat_completeness auto
termination
  by (relation "measure (\<lambda>(rs, k, i). cardinality - i)") auto

declare leaf_fwd.simps [simp del]

text \<open>Leaf, right to left: \<open>for(i = count() - 1; i > 0; --i)\<close>.\<close>

fun leaf_bwd :: "entry list \<Rightarrow> entry_key_t \<Rightarrow> nat \<Rightarrow> addr" where
  "leaf_bwd rs k 0 = 0"
| "leaf_bwd rs k (Suc j) =
     (if key (rs ! Suc j) = k \<and> ptr (rs ! j) \<noteq> ptr (rs ! Suc j) \<and> ptr (rs ! Suc j) \<noteq> 0
      then ptr (rs ! Suc j)
      else leaf_bwd rs k j)"

text \<open>
  Internal node, left to right: \<open>for(i = 1; records[i].ptr != NULL; ++i)\<close>; the result
  is \<open>ret\<close> and the \<open>i\<close> the loop stopped at.
\<close>

function internal_fwd :: "entry list \<Rightarrow> entry_key_t \<Rightarrow> nat \<Rightarrow> error + addr \<times> nat" where
  "internal_fwd rs k i =
     (if cardinality \<le> i then Inl OutOfBounds
      else if ptr (rs ! i) = 0 then Inr (0, i)
      else if k <s key (rs ! i) \<and> ptr (rs ! (i - 1)) \<noteq> ptr (rs ! i) then Inr (ptr (rs ! (i - 1)), i)
      else internal_fwd rs k (i + 1))"
  by pat_completeness auto
termination
  by (relation "measure (\<lambda>(rs, k, i). cardinality - i)") auto

declare internal_fwd.simps [simp del]

text \<open>
  Internal node, right to left: \<open>for(i = count() - 1; i >= 0; --i)\<close>; the argument is
  \<open>i + 1\<close>.
\<close>

fun internal_bwd :: "page \<Rightarrow> entry_key_t \<Rightarrow> nat \<Rightarrow> addr" where
  "internal_bwd pg k 0 = 0"
| "internal_bwd pg k (Suc i) =
     (if key (records pg ! i) \<le>s k \<and>
         (if i = 0 then leftmost_ptr pg \<noteq> ptr (records pg ! i)
          else ptr (records pg ! (i - 1)) \<noteq> ptr (records pg ! i))
      then ptr (records pg ! i)
      else internal_bwd pg k i)"

definition linear_search :: "state \<Rightarrow> page \<Rightarrow> entry_key_t \<Rightarrow> error + addr" where
  "linear_search s pg k =
     (let rs = records pg in
      if leftmost_ptr pg = 0 then
        (case (if IS_FORWARD (switch_counter pg) then
                 (if key (rs ! 0) = k \<and> ptr (rs ! 0) \<noteq> 0 then Inr (ptr (rs ! 0))
                  else leaf_fwd rs k 1)
               else
                 (case count pg of
                    Inl e \<Rightarrow> Inl e
                  | Inr c \<Rightarrow>
                      (let ret = leaf_bwd rs k (c - 1) in
                       if ret = 0 then
                         (if key (rs ! 0) = k \<and> ptr (rs ! 0) \<noteq> 0 then Inr (ptr (rs ! 0)) else Inr 0)
                       else Inr ret))) of
           Inl e \<Rightarrow> Inl e
         | Inr ret \<Rightarrow>
             if ret \<noteq> 0 then Inr ret
             else (case overshoot s pg k of
                     Inl e \<Rightarrow> Inl e
                   | Inr over \<Rightarrow> if over then Inr (sibling_ptr pg) else Inr 0))
      else
        (case (if IS_FORWARD (switch_counter pg) then
                 (if k <s key (rs ! 0) \<and> leftmost_ptr pg \<noteq> ptr (rs ! 0) then Inr (leftmost_ptr pg)
                  else (case internal_fwd rs k 1 of
                          Inl e \<Rightarrow> Inl e
                        | Inr (ret, i) \<Rightarrow> if ret = 0 then Inr (ptr (rs ! (i - 1))) else Inr ret))
               else
                 (case count pg of
                    Inl e \<Rightarrow> Inl e
                  | Inr c \<Rightarrow> Inr (internal_bwd pg k c))) of
           Inl e \<Rightarrow> Inl e
         | Inr ret \<Rightarrow>
             (case overshoot s pg k of
                Inl e \<Rightarrow> Inl e
              | Inr over \<Rightarrow>
                  if over then Inr (sibling_ptr pg)
                  else if ret \<noteq> 0 then Inr ret
                  else Inr (leftmost_ptr pg))))"

section \<open>Descent loops of the tree driver\<close>

text \<open>
  \<open>while(p->hdr.leftmost_ptr != NULL) p = p->linear_search(key)\<close>. The loops of the
  driver run as long as the memory tells them to; they take fuel, and running out of it
  is \<open>OutOfFuel\<close>.
\<close>

fun find_leaf :: "nat \<Rightarrow> state \<Rightarrow> addr \<Rightarrow> entry_key_t \<Rightarrow> error + addr" where
  "find_leaf 0 s p k = Inl OutOfFuel"
| "find_leaf (Suc n) s p k =
     (case page_at s p of
        Inl e \<Rightarrow> Inl e
      | Inr pg \<Rightarrow>
          if leftmost_ptr pg \<noteq> 0 then
            (case linear_search s pg k of Inl e \<Rightarrow> Inl e | Inr c \<Rightarrow> find_leaf n s c k)
          else Inr p)"

text \<open>\<open>while(p->hdr.level > level) p = p->linear_search(key)\<close>\<close>

fun find_level :: "nat \<Rightarrow> state \<Rightarrow> addr \<Rightarrow> entry_key_t \<Rightarrow> nat \<Rightarrow> error + addr" where
  "find_level 0 s p k lvl = Inl OutOfFuel"
| "find_level (Suc n) s p k lvl =
     (case page_at s p of
        Inl e \<Rightarrow> Inl e
      | Inr pg \<Rightarrow>
          if lvl < level pg then
            (case linear_search s pg k of Inl e \<Rightarrow> Inl e | Inr c \<Rightarrow> find_level n s c k lvl)
          else Inr p)"

text \<open>
  \<open>while((t = p->linear_search(key)) == p->hdr.sibling_ptr) { p = t; if(!p) break; }\<close>;
  the result is \<open>(p, t)\<close>.
\<close>

fun follow_siblings :: "nat \<Rightarrow> state \<Rightarrow> addr \<Rightarrow> entry_key_t \<Rightarrow> error + addr \<times> addr" where
  "follow_siblings 0 s p k = Inl OutOfFuel"
| "follow_siblings (Suc n) s p k =
     (case page_at s p of
        Inl e \<Rightarrow> Inl e
      | Inr pg \<Rightarrow>
          (case linear_search s pg k of
             Inl e \<Rightarrow> Inl e
           | Inr t \<Rightarrow>
               if t = sibling_ptr pg then
                 (if t = 0 then Inr (t, t) else follow_siblings n s t k)
               else Inr (p, t)))"

section \<open>\<open>page::store\<close> (FAST and FAIR) and the insert driver\<close>

text \<open>
  \<open>(int) ceil(num_entries/2)\<close>: the division is between two \<open>int\<close>s, and
  \<open>num_entries\<close> is not negative.
\<close>

definition split_point :: "nat \<Rightarrow> nat" where
  "split_point num_entries = nat \<lceil>real (num_entries div 2)\<rceil>"

text \<open>
  The counter update of the split:
  \<open>if(IS_FORWARD(hdr.switch_counter)) hdr.switch_counter += 2; else ++hdr.switch_counter;\<close>
\<close>

definition split_bump :: "8 word \<Rightarrow> 8 word" where
  "split_bump c = (if IS_FORWARD c then c + 2 else c + 1)"

definition offsetof_last_index :: int where
  "offsetof_last_index = 8 + 8 + 4 + 1 + 1"

text \<open>
  The migration loops \<open>for(int i = m; i < num_entries; ++i)\<close> of the split, over the list
  of the indices they visit: each step is
  \<open>sibling->insert_key(records[i].key, records[i].ptr, &sibling_cnt, false)\<close>.
\<close>

fun migrate :: "addr \<Rightarrow> entry list \<Rightarrow> nat list \<Rightarrow> page \<times> nat \<times> event list \<Rightarrow> error + page \<times> nat \<times> event list" where
  "migrate sa rs [] st = Inr st"
| "migrate sa rs (i # is) (sib, sibling_cnt, evs) =
     (case insert_key sa (key (rs ! i)) (ptr (rs ! i)) sibling_cnt False sib of
        Inl e \<Rightarrow> Inl e
      | Inr (sib', evs') \<Rightarrow> migrate sa rs is (sib', sibling_cnt + 1, evs @ evs'))"

text \<open>
  The FAIR branch of \<open>store\<close> from \<open>new page(hdr.level)\<close> to the insertion of the key
  into one of the two halves. The result is \<open>ret\<close>, the split key, the sibling and the
  memory.
\<close>

definition fair_split :: "addr \<Rightarrow> entry_key_t \<Rightarrow> addr \<Rightarrow> page \<Rightarrow> nat \<Rightarrow> state \<Rightarrow> error + addr \<times> entry_key_t \<times> addr \<times> state" where
  "fair_split this k right pg num_entries s =
     (case alloc s of
        Inl e \<Rightarrow> Inl e
      | Inr sibling \<Rightarrow>
          (let rs = records pg;
               m = split_point num_entries;
               split_key = key (rs ! m)
           in case migrate sibling rs (if leftmost_ptr pg = 0 then [m ..< num_entries] else [m + 1 ..< num_entries])
                     (page_ctor (level pg), 0, []) of
                Inl e \<Rightarrow> Inl e
              | Inr (sib1, sibling_cnt, evs1) \<Rightarrow>
                  (let sib2 = (if leftmost_ptr pg = 0 then sib1\<lparr>highest := Some (key (rs ! m))\<rparr>
                               else sib1\<lparr>leftmost_ptr := ptr (rs ! m), highest := Some (key (rs ! m))\<rparr>);
                       sib3 = sib2\<lparr>sibling_ptr := sibling_ptr pg\<rparr>;
                       ev_sibling = Clflush sibling PAGESIZE sib3;
                       pg1 = pg\<lparr>sibling_ptr := sibling\<rparr>;
                       ev_hdr = Clflush this sizeof_header pg1;
                       pg2 = pg1\<lparr>switch_counter := split_bump (switch_counter pg1)\<rparr>;
                       pg3 = pg2\<lparr>records := rs[m := (rs ! m)\<lparr>ptr := 0\<rparr>]\<rparr>;
                       ev_rec = Clflush (rec_addr this m) sizeof_entry pg3;
                       pg4 = pg3\<lparr>last_index := int m - 1\<rparr>;
                       ev_idx = Clflush (this + of_int offsetof_last_index) 2 pg4;
                       num_entries' = nat (last_index pg4 + 1);
                       evs = evs1 @ [ev_sibling, ev_hdr, ev_rec, ev_idx]
                   in if k <s split_key then
                        (case insert_key this k right num_entries' True pg4 of
                           Inl e \<Rightarrow> Inl e
                         | Inr (pg5, evs5) \<Rightarrow>
                             Inr (this, split_key, sibling,
                                  log_events (evs @ evs5) (set_page this pg5 (set_page sibling sib3 s))))
                      else
                        (case insert_key sibling k right sibling_cnt True sib3 of
                           Inl e \<Rightarrow> Inl e
                         | Inr (sib4, evs5) \<Rightarrow>
                             Inr (sibling, split_key, sibling,
                                  log_events (evs @ evs5) (set_page this pg4 (set_page sibling sib4 s)))))))"

text \<open>
  \<open>store(bt, left, key, right, flush, with_lock, invalid_sibling)\<close>: \<open>left\<close> is never
  read, \<open>with_lock\<close> only guards the mutex, and every caller passes \<open>NULL\<close> for
  \<open>invalid_sibling\<close>. The result is the returned page pointer (\<open>0\<close> when the node was
  deleted) and the memory. \<open>btree_insert_internal\<close> re-descends from the root.
\<close>

fun store :: "nat \<Rightarrow> addr \<Rightarrow> entry_key_t \<Rightarrow> addr \<Rightarrow> bool \<Rightarrow> state \<Rightarrow> error + addr \<times> state"
and btree_insert_internal :: "nat \<Rightarrow> entry_key_t \<Rightarrow> addr \<Rightarrow> nat \<Rightarrow> state \<Rightarrow> error + state" where
  "store 0 this k right flush s = Inl OutOfFuel"
| "store (Suc n) this k right flush s =
     (case page_at s this of
        Inl e \<Rightarrow> Inl e
      | Inr pg \<Rightarrow>
          if is_deleted pg \<noteq> 0 then Inr (0, s)
          else
            (case overshoot s pg k of
               Inl e \<Rightarrow> Inl e
             | Inr over \<Rightarrow>
                 if over then store n (sibling_ptr pg) k right True s
                 else
                   (case count pg of
                      Inl e \<Rightarrow> Inl e
                    | Inr num_entries \<Rightarrow>
                        if num_entries < cardinality - 1 then
                          (case insert_key this k right num_entries flush pg of
                             Inl e \<Rightarrow> Inl e
                           | Inr (pg', evs) \<Rightarrow> Inr (this, log_events evs (set_page this pg' s)))
                        else
                          (case fair_split this k right pg num_entries s of
                             Inl e \<Rightarrow> Inl e
                           | Inr (ret, split_key, sibling, s1) \<Rightarrow>
                               if root s1 = this then
                                 (case alloc s1 of
                                    Inl e \<Rightarrow> Inl e
                                  | Inr new_root \<Rightarrow>
                                      (case page_ctor_root new_root this split_key sibling (level pg + 1) of
                                         (rp, evs) \<Rightarrow>
                                           Inr (ret, setNewRoot new_root
                                                       (log_events evs (set_page new_root rp s1)))))
                               else
                                 (case btree_insert_internal n split_key sibling (level pg + 1) s1 of
                                    Inl e \<Rightarrow> Inl e
                                  | Inr s2 \<Rightarrow> Inr (ret, s2))))))"
| "btree_insert_internal 0 k right lvl s = Inl OutOfFuel"
| "btree_insert_internal (Suc n) k right lvl s =
     (case page_at s (root s) of
        Inl e \<Rightarrow> Inl e
      | Inr rp \<Rightarrow>
          if level rp < lvl then Inr s
          else
            (case find_level n s (root s) k lvl of
               Inl e \<Rightarrow> Inl e
             | Inr p \<Rightarrow>
                 (case store n p k right True s of
                    Inl e \<Rightarrow> Inl e
                  | Inr (r, s') \<Rightarrow> if r = 0 then btree_insert_internal n k right lvl s' else Inr s')))"

text \<open>\<open>btree::btree_insert\<close>; a \<open>NULL\<close> from \<open>store\<close> restarts it.\<close>

fun btree_insert :: "nat \<Rightarrow> entry_key_t \<Rightarrow> addr \<Rightarrow> state \<Rightarrow> error + state" where
  "btree_insert 0 k right s = Inl OutOfFuel"
| "btree_insert (Suc n) k right s =
     (case find_leaf n s (root s) k of
        Inl e \<Rightarrow> Inl e
      | Inr p \<Rightarrow>
          (case store n p k right True s of
             Inl e \<Rightarrow> Inl e
           | Inr (r, s') \<Rightarrow> if r = 0 then btree_insert n k right s' else Inr s'))"

section \<open>\<open>btree::btree_search\<close>\<close>

definition btree_search :: "nat \<Rightarrow> entry_key_t \<Rightarrow> state \<Rightarrow> error + addr" where
  "btree_search n k s =
     (case find_leaf n s (root s) k of
        Inl e \<Rightarrow> Inl e
      | Inr p \<Rightarrow>
          (case follow_siblings n s p k of
             Inl e \<Rightarrow> Inl e
           | Inr (p', t) \<Rightarrow> if t = 0 \<or> t \<noteq> k then Inr 0 else Inr t))"

section \<open>\<open>btree::btree_delete\<close>\<close>

text \<open>\<open>page::remove\<close>: \<open>remove_key\<close> under the node's lock.\<close>

definition remove :: "addr \<Rightarrow> entry_key_t \<Rightarrow> state \<Rightarrow> error + bool \<times> state" where
  "remove this k s =
     (case page_at s this of
        Inl e \<Rightarrow> Inl e
      | Inr pg \<Rightarrow>
          (case remove_key this k pg of
             Inl e \<Rightarrow> Inl e
           | Inr (ret, pg', evs) \<Rightarrow> Inr (ret, log_events evs (set_page this pg' s))))"

fun btree_delete :: "nat \<Rightarrow> entry_key_t \<Rightarrow> state \<Rightarrow> error + state" where
  "btree_delete 0 k s = Inl OutOfFuel"
| "btree_delete (Suc n) k s =
     (case find_leaf n s (root s) k of
        Inl e \<Rightarrow> Inl e
      | Inr p0 \<Rightarrow>
          (case follow_siblings n s p0 k of
             Inl e \<Rightarrow> Inl e
           | Inr (p, t) \<Rightarrow>
               if p \<noteq> 0 then
                 (case remove p k s of
                    Inl e \<Rightarrow> Inl e
                  | Inr (ret, s') \<Rightarrow> if \<not> ret then btree_delete n k s' else Inr s')
               else Inr s))"

section \<open>\<open>page::linear_search_range\<close> and \<open>btree::btree_search_range\<close>\<close>

text \<open>
  What one visited entry does to the scan: a value written to \<open>buf[off++]\<close>, nothing,
  or the \<open>return\<close> that ends the whole scan. Entry \<open>0\<close> is compared with \<open>NULL\<close>, every
  other entry with its left neighbour.
\<close>

datatype visit = Emit addr | Skip | Return

definition visit_entry :: "entry list \<Rightarrow> nat \<Rightarrow> entry_key_t \<Rightarrow> entry_key_t \<Rightarrow> visit" where
  "visit_entry rs i mn mx =
     (if mn <s key (rs ! i) then
        (if key (rs ! i) <s mx then
           (if ptr (rs ! i) \<noteq> (if i = 0 then 0 else ptr (rs ! (i - 1))) \<and> ptr (rs ! i) \<noteq> 0
            then Emit (ptr (rs ! i)) else Skip)
         else Return)
      else Skip)"

text \<open>
  The scans of one node give the values written and whether the scan returned.
  Left to right: \<open>for(i = 1; current->records[i].ptr != NULL; ++i)\<close>.
\<close>

function range_fwd :: "entry list \<Rightarrow> entry_key_t \<Rightarrow> entry_key_t \<Rightarrow> nat \<Rightarrow> addr list \<Rightarrow> error + bool \<times> addr list" where
  "range_fwd rs mn mx i out =
     (if cardinality \<le> i then Inl OutOfBounds
      else if ptr (rs ! i) = 0 then Inr (False, out)
      else (case visit_entry rs i mn mx of
              Return \<Rightarrow> Inr (True, out)
            | Emit v \<Rightarrow> range_fwd rs mn mx (i + 1) (out @ [v])
            | Skip \<Rightarrow> range_fwd rs mn mx (i + 1) out))"
  by pat_completeness auto
termination
  by (relation "measure (\<lambda>(rs, mn, mx, i, out). cardinality - i)") auto

declare range_fwd.simps [simp del]

text \<open>Right to left: \<open>for(i = count() - 1; i > 0; --i)\<close>.\<close>

fun range_bwd :: "entry list \<Rightarrow> entry_key_t \<Rightarrow> entry_key_t \<Rightarrow> nat \<Rightarrow> addr list \<Rightarrow> bool \<times> addr list" where
  "range_bwd rs mn mx 0 out = (False, out)"
| "range_bwd rs mn mx (Suc j) out =
     (case visit_entry rs (Suc j) mn mx of
        Return \<Rightarrow> (True, out)
      | Emit v \<Rightarrow> range_bwd rs mn mx j (out @ [v])
      | Skip \<Rightarrow> range_bwd rs mn mx j out)"

text \<open>
  The body of \<open>while(current)\<close> for one node. In the right-to-left branch the source
  calls \<open>count()\<close>, that is \<open>this->count()\<close>: the count of the leaf the scan started
  from, not of \<open>current\<close>.
\<close>

definition scan_node :: "page \<Rightarrow> page \<Rightarrow> entry_key_t \<Rightarrow> entry_key_t \<Rightarrow> error + bool \<times> addr list" where
  "scan_node this_pg current mn mx =
     (let rs = records current in
      if IS_FORWARD (switch_counter current) then
        (case visit_entry rs 0 mn mx of
           Return \<Rightarrow> Inr (True, [])
         | Emit v \<Rightarrow> range_fwd rs mn mx 1 [v]
         | Skip \<Rightarrow> range_fwd rs mn mx 1 [])
      else
        (case count this_pg of
           Inl e \<Rightarrow> Inl e
         | Inr c \<Rightarrow>
             (case range_bwd rs mn mx (c - 1) [] of
                (True, out) \<Rightarrow> Inr (True, out)
              | (False, out) \<Rightarrow>
                  (case visit_entry rs 0 mn mx of
                     Return \<Rightarrow> Inr (True, out)
                   | Emit v \<Rightarrow> Inr (False, out @ [v])
                   | Skip \<Rightarrow> Inr (False, out)))))"

text \<open>
  \<open>linear_search_range(min, max, buf)\<close>: the result is the contents of
  \<open>buf[0 .. off - 1]\<close> when the function returns.
\<close>

fun linear_search_range :: "nat \<Rightarrow> state \<Rightarrow> page \<Rightarrow> addr \<Rightarrow> entry_key_t \<Rightarrow> entry_key_t \<Rightarrow> addr list \<Rightarrow> error + addr list" where
  "linear_search_range 0 s this_pg current mn mx buf = Inl OutOfFuel"
| "linear_search_range (Suc n) s this_pg current mn mx buf =
     (if current = 0 then Inr buf
      else case page_at s current of
             Inl e \<Rightarrow> Inl e
           | Inr pg \<Rightarrow>
               (case scan_node this_pg pg mn mx of
                  Inl e \<Rightarrow> Inl e
                | Inr (stop, out) \<Rightarrow>
                    if stop then Inr (buf @ out)
                    else linear_search_range n s this_pg (sibling_ptr pg) mn mx (buf @ out)))"

fun btree_search_range :: "nat \<Rightarrow> state \<Rightarrow> addr \<Rightarrow> entry_key_t \<Rightarrow> entry_key_t \<Rightarrow> error + addr list" where
  "btree_search_range 0 s p mn mx = Inl OutOfFuel"
| "btree_search_range (Suc n) s p mn mx =
     (if p = 0 then Inr []
      else case page_at s p of
             Inl e \<Rightarrow> Inl e
           | Inr pg \<Rightarrow>
               if leftmost_ptr pg \<noteq> 0 then
                 (case linear_search s pg mn of Inl e \<Rightarrow> Inl e | Inr c \<Rightarrow> btree_search_range n s c mn mx)
               else linear_search_range n s pg p mn mx [])"

section \<open>The driver of test.cpp and notions used in the statements\<close>

text \<open>
  The insertion loops of \<open>main\<close>: \<open>bt->btree_insert(keys[i], (char *)keys[i])\<close> for each
  key in turn; the driver stores every key as its own value handle.
\<close>

fun insert_all :: "nat \<Rightarrow> (entry_key_t \<times> addr) list \<Rightarrow> state \<Rightarrow> error + state" where
  "insert_all n [] s = Inr s"
| "insert_all n ((k, v) # kvs) s =
     (case btree_insert n k v s of Inl e \<Rightarrow> Inl e | Inr s' \<Rightarrow> insert_all n kvs s')"

definition keys_as_handles :: "int list \<Rightarrow> (entry_key_t \<times> addr) list" where
  "keys_as_handles ks = map (\<lambda>k. (of_int k, of_int k)) ks"

text \<open>
  The valid entries of a node: the prefix of \<open>records\<close> before the first null
  value handle.
\<close>

definition valid_entries :: "page \<Rightarrow> entry list" where
  "valid_entries pg = takeWhile (\<lambda>e. ptr e \<noteq> 0) (records pg)"

definition sorted_keys :: "page \<Rightarrow> bool" where
  "sorted_keys pg = sorted (map (\<lambda>e. sint (key e)) (valid_entries pg))"

text \<open>
  Two pages agree on every header field and on the size of \<open>records\<close>; and a flush
  event carries a page that agrees so with a given one.
\<close>

definition same_header :: "page \<Rightarrow> page \<Rightarrow> bool" where
  "same_header pg pg' =
     (leftmost_ptr pg' = leftmost_ptr pg \<and> sibling_ptr pg' = sibling_ptr pg \<and> level pg' = level pg \<and>
      switch_counter pg' = switch_counter pg \<and> is_deleted pg' = is_deleted pg \<and>
      last_index pg' = last_index pg \<and> highest pg' = highest pg \<and>
      length (records pg') = length (records pg))"

definition snapshot_of :: "page \<Rightarrow> event \<Rightarrow> bool" where
  "snapshot_of pg ev = (case ev of Clflush a l snap \<Rightarrow> same_header pg snap | ClflushRoot a \<Rightarrow> False)"

text \<open>The header \<open>insert_key\<close> works under: the page with its counter made even.\<close>

definition insert_key_hdr :: "page \<Rightarrow> page" where
  "insert_key_hdr pg =
     pg\<lparr>switch_counter := (if IS_FORWARD (switch_counter pg) then switch_counter pg
                            else switch_counter pg + 1)\<rparr>"

text \<open>
  What the FAST shift does to the list of valid entries: the new entry goes right after
  the last entry whose key is not greater than the new key. And what the remove loop
  does to it: the first entry with the key goes.
\<close>

definition entries_insert :: "entry_key_t \<Rightarrow> addr \<Rightarrow> entry list \<Rightarrow> entry list" where
  "entries_insert k p es =
     rev (dropWhile (\<lambda>e. k <s key e) (rev es)) @ [\<lparr>key = k, ptr = p\<rparr>] @
     rev (takeWhile (\<lambda>e. k <s key e) (rev es))"

fun entries_remove :: "entry_key_t \<Rightarrow> entry list \<Rightarrow> entry list" where
  "entries_remove k [] = []"
| "entries_remove k (e # es) = (if key e = k then es else e # entries_remove k es)"

text \<open>
  Every sibling pointer in memory leads to a page whose \<open>highest\<close> has been assigned.
\<close>

definition siblings_assigned :: "state \<Rightarrow> bool" where
  "siblings_assigned s =
     (\<forall>a pg. page_at s a = Inr pg \<longrightarrow> sibling_ptr pg \<noteq> 0 \<longrightarrow>
        (\<exists>sp. page_at s (sibling_ptr pg) = Inr sp \<and> highest sp \<noteq> None))"

text \<open>A leaf with three entries, the keys 10, 20 and 30 stored as their own handles.\<close>

definition sample_leaf :: page where
  "sample_leaf =
     (page_ctor 0)\<lparr>last_index := 2,
                   records := [\<lparr>key = 10, ptr = 10\<rparr>, \<lparr>key = 20, ptr = 20\<rparr>, \<lparr>key = 30, ptr = 30\<rparr>] @
                              replicate 26 entry_ctor\<rparr>"

text \<open>
  A leaf that holds \<open>cardinality - 1\<close> entries, the keys \<open>1 .. 28\<close> stored as their own
  handles, and the tree whose root is that leaf.
\<close>

definition full_leaf :: page where
  "full_leaf =
     (page_ctor 0)\<lparr>last_index := 27,
                   records := map (\<lambda>i. \<lparr>key = of_int i, ptr = of_int i\<rparr>) [1 .. 28] @ [entry_ctor]\<rparr>"

definition full_leaf_state :: state where
  "full_leaf_state = \<lparr>heap = [(heap_base, full_leaf)], root = heap_base, height = 1, flushed = []\<rparr>"

text \<open>
  The situation in which \<open>btree_delete\<close> reaches a leaf for a key that is not there: the
  root is an internal node that sends the key to the leaf \<open>p\<close>, the leaf has a right
  sibling, and its \<open>linear_search\<close> answers \<open>NULL\<close>.
\<close>

definition absent_in_linked_leaf :: "state \<Rightarrow> addr \<Rightarrow> entry_key_t \<Rightarrow> bool" where
  "absent_in_linked_leaf s p k =
     (case page_at s (root s) of
        Inl e \<Rightarrow> False
      | Inr rp \<Rightarrow>
          leftmost_ptr rp \<noteq> 0 \<and> linear_search s rp k = Inr p \<and>
          (case page_at s p of
             Inl e \<Rightarrow> False
           | Inr lf \<Rightarrow> p \<noteq> 0 \<and> leftmost_ptr lf = 0 \<and> sibling_ptr lf \<noteq> 0 \<and>
                       linear_search s lf k = Inr 0))"



section \<open>Properties\<close>

lemma cardinality_eq: "cardinality = 29"
  by (simp add: cardinality_def PAGESIZE_def sizeof_header_def sizeof_entry_def)


subsection \<open>Parity of the switch counter\<close>

lemma IS_FORWARD_succ: "IS_FORWARD (c + 1) = (\<not> IS_FORWARD c)"
  unfolding IS_FORWARD_def
  by (simp add: uint_word_ariths mod_mod_cancel) presburger

lemma IS_FORWARD_plus2: "IS_FORWARD (c + 2) = IS_FORWARD c"
  unfolding IS_FORWARD_def
  by (simp add: uint_word_ariths mod_mod_cancel)

lemma IS_FORWARD_split_bump: "IS_FORWARD (split_bump c)"
  by (simp add: split_bump_def IS_FORWARD_succ IS_FORWARD_plus2)

lemma same_header_refl [simp]: "same_header pg pg"
  by (simp add: same_header_def)

lemma same_header_trans: "same_header a b \<Longrightarrow> same_header b c \<Longrightarrow> same_header a c"
  unfolding same_header_def by simp

lemma snapshot_of_trans: "same_header a b \<Longrightarrow> snapshot_of b ev \<Longrightarrow> snapshot_of a ev"
  unfolding snapshot_of_def by (auto split: event.splits intro: same_header_trans)

lemma fast_shift_step:
  assumes "k <s key (records pg ! j)"
  obtains rs evs1 where
    "fast_shift this k p fl (Suc j) (pg, evs) = fast_shift this k p fl j (pg\<lparr>records := rs\<rparr>, evs @ evs1)"
    "length rs = length (records pg)"
    "list_all (snapshot_of pg) evs1" "\<not> fl \<longrightarrow> evs1 = []"
  using assms by (simp add: Let_def same_header_def snapshot_of_def)

lemma fast_shift_header:
  "same_header pg (fst (fast_shift this k p fl j (pg, evs)))"
proof (induction j arbitrary: pg evs)
  case 0
  show ?case by (simp add: Let_def same_header_def)
next
  case (Suc j)
  show ?case
  proof (cases "k <s key (records pg ! j)")
    case True
    from fast_shift_step[OF True, of this p fl evs] obtain rs evs1 where
      step: "fast_shift this k p fl (Suc j) (pg, evs) = fast_shift this k p fl j (pg\<lparr>records := rs\<rparr>, evs @ evs1)"
      and len: "length rs = length (records pg)"
      by metis
    have "same_header pg (pg\<lparr>records := rs\<rparr>)" using len by (simp add: same_header_def)
    from same_header_trans[OF this Suc.IH] show ?thesis unfolding step .
  next
    case False
    then show ?thesis by (simp add: Let_def same_header_def)
  qed
qed

lemma fast_shift_events:
  "\<exists>new. snd (fast_shift this k p fl j (pg, evs)) = evs @ new \<and> list_all (snapshot_of pg) new \<and> (\<not> fl \<longrightarrow> new = [])"
proof (induction j arbitrary: pg evs)
  case 0
  show ?case by (simp add: Let_def same_header_def snapshot_of_def)
next
  case (Suc j)
  show ?case
  proof (cases "k <s key (records pg ! j)")
    case True
    from fast_shift_step[OF True, of this p fl evs] obtain rs evs1 where
      step: "fast_shift this k p fl (Suc j) (pg, evs) = fast_shift this k p fl j (pg\<lparr>records := rs\<rparr>, evs @ evs1)"
      and len: "length rs = length (records pg)"
      and e1: "list_all (snapshot_of pg) evs1" and f1: "\<not> fl \<longrightarrow> evs1 = []"
      by metis
    define pg1 where "pg1 = pg\<lparr>records := rs\<rparr>"
    have h1: "same_header pg pg1" using len by (simp add: same_header_def pg1_def)
    note step = step[folded pg1_def]
    from Suc.IH[of pg1 "evs @ evs1"] obtain new where
      b: "snd (fast_shift this k p fl j (pg1, evs @ evs1)) = (evs @ evs1) @ new" and c: "list_all (snapshot_of pg1) new" and d: "\<not> fl \<longrightarrow> new = []"
      by blast
    have e: "list_all (snapshot_of pg) new"
      using c h1 by (auto simp: list_all_iff intro: snapshot_of_trans)
    show ?thesis
      unfolding step using b d e e1 f1
      by (intro exI[of _ "evs1 @ new"]) simp
  next
    case False
    then show ?thesis by (simp add: Let_def same_header_def snapshot_of_def)
  qed
qed

lemma fast_shift_frame:
  "fast_shift this k p fl j (pg, evs) = (pg', evs') \<Longrightarrow>
   same_header pg pg' \<and> (\<exists>new. evs' = evs @ new \<and> list_all (snapshot_of pg) new \<and> (\<not> fl \<longrightarrow> new = []))"
  using fast_shift_header[of pg this k p fl j evs] fast_shift_events[of this k p fl j pg evs] by simp

lemma insert_key_frame:
  assumes "insert_key this k p n fl pg = Inr (pg', evs)"
  shows "same_header (insert_key_hdr pg) (pg'\<lparr>last_index := last_index pg\<rparr>) \<and> last_index pg' = int n \<and>
         list_all (snapshot_of (insert_key_hdr pg)) evs \<and> (\<not> fl \<longrightarrow> evs = [])"
proof -
  define pg0 where "pg0 = insert_key_hdr pg"
  have pg0: "(if \<not> IS_FORWARD (switch_counter pg) then pg\<lparr>switch_counter := switch_counter pg + 1\<rparr> else pg) = pg0"
    by (simp add: pg0_def insert_key_hdr_def)
  have li: "last_index pg0 = last_index pg" by (simp add: pg0_def insert_key_hdr_def)
  have "same_header pg0 (pg'\<lparr>last_index := last_index pg\<rparr>) \<and> last_index pg' = int n \<and> list_all (snapshot_of pg0) evs \<and> (\<not> fl \<longrightarrow> evs = [])"
  proof (cases "n = 0")
    case True
    with assms li show ?thesis
      unfolding insert_key_def pg0
      by (auto simp: Let_def snapshot_of_def same_header_def split: if_splits)
  next
    case False
    define pg1 where "pg1 = pg0\<lparr>records := (records pg0)[n + 1 := (records pg0 ! (n + 1))\<lparr>ptr := ptr (records pg0 ! n)\<rparr>]\<rparr>"
    define evs1 where "evs1 = (if fl \<and> uint (rec_addr this (n + 1) + 8) mod CACHE_LINE_SIZE = 0
                       then [Clflush (rec_addr this (n + 1) + 8) 8 pg1] else [])"
    obtain pg2 evs2 where fs: "fast_shift this k p fl n (pg1, evs1) = (pg2, evs2)"
      by (cases "fast_shift this k p fl n (pg1, evs1)")
    from assms False fs have res: "pg' = pg2\<lparr>last_index := int n\<rparr>" "evs = evs2"
      unfolding insert_key_def pg0
      by (auto simp: Let_def pg1_def evs1_def split: if_splits)
    from fast_shift_frame[OF fs] obtain new where
      a: "same_header pg1 pg2" and b: "evs2 = evs1 @ new" and c: "list_all (snapshot_of pg1) new" and d: "\<not> fl \<longrightarrow> new = []"
      by blast
    have h1: "same_header pg0 pg1" by (simp add: pg1_def same_header_def)
    have h2: "same_header pg0 pg2" using same_header_trans[OF h1 a] .
    have "same_header pg0 (pg'\<lparr>last_index := last_index pg\<rparr>)"
      using h2 li unfolding res same_header_def by simp
    moreover have "list_all (snapshot_of pg0) evs"
      using c h1 unfolding res b
      by (auto simp: list_all_iff evs1_def intro: snapshot_of_trans) (simp add: snapshot_of_def)
    moreover have "\<not> fl \<longrightarrow> evs = []" using d unfolding res b by (simp add: evs1_def)
    moreover have "last_index pg' = int n" unfolding res by simp
    ultimately show ?thesis by blast
  qed
  then show ?thesis by (simp add: pg0_def)
qed


lemma remove_body_header:
  "remove_body this k i (sh, pg, evs) = (sh', pg', evs') \<Longrightarrow> same_header pg pg'"
  by (auto simp: remove_body_def Let_def same_header_def split: if_splits)

lemma remove_loop_header:
  "remove_loop this k i (sh, pg, evs) = Inr (sh', pg', evs') \<Longrightarrow> same_header pg pg'"
proof (induction "cardinality - i" arbitrary: i sh pg evs)
  case 0
  then show ?case by (subst (asm) remove_loop.simps) simp
next
  case (Suc d)
  obtain sh1 pg1 evs1 where body: "remove_body this k i (sh, pg, evs) = (sh1, pg1, evs1)"
    by (cases "remove_body this k i (sh, pg, evs)")
  have d: "d = cardinality - Suc i" using Suc.hyps(2) by simp
  from Suc.prems have "(sh', pg', evs') = (sh, pg, evs) \<or> remove_loop this k (Suc i) (sh1, pg1, evs1) = Inr (sh', pg', evs')"
    by (subst (asm) remove_loop.simps) (simp add: body split: if_splits)
  then show ?case
  proof
    assume "(sh', pg', evs') = (sh, pg, evs)"
    then show ?thesis by simp
  next
    assume "remove_loop this k (Suc i) (sh1, pg1, evs1) = Inr (sh', pg', evs')"
    from Suc.hyps(1)[OF d this] remove_body_header[OF body] show ?thesis
      using same_header_trans by blast
  qed
qed

lemma remove_key_switch_counter:
  assumes "remove_key this k pg = Inr (sh, pg', evs)"
  shows "switch_counter pg' = (if IS_FORWARD (switch_counter pg) then switch_counter pg + 1 else switch_counter pg)"
proof -
  define pg0 where "pg0 = (if IS_FORWARD (switch_counter pg) then pg\<lparr>switch_counter := switch_counter pg + 1\<rparr> else pg)"
  from assms obtain pg1 evs1 where rl: "remove_loop this k 0 (False, pg0, []) = Inr (sh, pg1, evs1)"
    and res: "pg' = (if sh then pg1\<lparr>last_index := last_index pg1 - 1\<rparr> else pg1)"
    unfolding remove_key_def pg0_def[symmetric]
    by (auto simp: Let_def split: sum.splits)
  from remove_loop_header[OF rl] have "switch_counter pg1 = switch_counter pg0"
    by (simp add: same_header_def)
  then show ?thesis unfolding res by (simp add: pg0_def)
qed

lemma page_at_set_page: "page_at (set_page a pg s) b = (if b = a then Inr pg else page_at s b)"
  by (simp add: page_at_def set_page_def update_conv')

lemma page_at_log_events [simp]: "page_at (log_events evs s) a = page_at s a"
  by (simp add: page_at_def log_events_def)

lemma alloc_fresh: "alloc s = Inr a \<Longrightarrow> page_at s a = Inl InvalidPointer \<and> a \<noteq> 0"
  by (auto simp: alloc_def page_at_def Let_def split: if_splits)

lemma insert_key_switch_counter:
  assumes "insert_key this k p n fl pg = Inr (pg', evs)"
  shows "switch_counter pg' = (if IS_FORWARD (switch_counter pg) then switch_counter pg else switch_counter pg + 1)"
  using insert_key_frame[OF assms] by (simp add: same_header_def insert_key_hdr_def split: if_splits)

lemma fair_split_switch_counter:
  assumes "fair_split this k right pg n s = Inr (ret, sk, sib, s1)" and "page_at s this = Inr pg"
  shows "\<exists>pgN. page_at s1 this = Inr pgN \<and> switch_counter pgN = split_bump (switch_counter pg)"
proof -
  from assms(1) obtain sa where al: "alloc s = Inr sa"
    unfolding fair_split_def by (auto split: sum.splits)
  from alloc_fresh[OF al] assms(2) have ne: "this \<noteq> sa" by auto
  from assms(1) al ne show ?thesis
    unfolding fair_split_def
    by (auto simp: Let_def page_at_set_page IS_FORWARD_split_bump
             split: sum.splits prod.splits if_splits dest!: insert_key_switch_counter)
qed

lemma snapshot_of_switch_counter:
  "snapshot_of pg ev \<Longrightarrow> c = switch_counter pg \<Longrightarrow>
   (case ev of Clflush a l snap \<Rightarrow> switch_counter snap = c | ClflushRoot a \<Rightarrow> False)"
  by (cases ev) (simp_all add: snapshot_of_def same_header_def)

lemma remove_body_events:
  "remove_body this k i (sh, pg, evs) = (sh', pg', evs') \<Longrightarrow>
   \<exists>new. evs' = evs @ new \<and> list_all (snapshot_of pg) new"
  by (auto simp: remove_body_def Let_def snapshot_of_def same_header_def split: if_splits)

lemma remove_loop_events:
  "remove_loop this k i (sh, pg, evs) = Inr (sh', pg', evs') \<Longrightarrow>
   \<exists>new. evs' = evs @ new \<and> list_all (snapshot_of pg) new"
proof (induction "cardinality - i" arbitrary: i sh pg evs)
  case 0
  then show ?case by (subst (asm) remove_loop.simps) simp
next
  case (Suc d)
  obtain sh1 pg1 evs1 where body: "remove_body this k i (sh, pg, evs) = (sh1, pg1, evs1)"
    by (cases "remove_body this k i (sh, pg, evs)")
  have d: "d = cardinality - Suc i" using Suc.hyps(2) by simp
  from Suc.prems have "(sh', pg', evs') = (sh, pg, evs) \<or> remove_loop this k (Suc i) (sh1, pg1, evs1) = Inr (sh', pg', evs')"
    by (subst (asm) remove_loop.simps) (simp add: body split: if_splits)
  then show ?case
  proof
    assume "(sh', pg', evs') = (sh, pg, evs)"
    then show ?thesis by simp
  next
    assume rest: "remove_loop this k (Suc i) (sh1, pg1, evs1) = Inr (sh', pg', evs')"
    from remove_body_events[OF body] obtain new1 where
      n1: "evs1 = evs @ new1" "list_all (snapshot_of pg) new1" by blast
    from Suc.hyps(1)[OF d rest] obtain new2 where
      n2: "evs' = evs1 @ new2" "list_all (snapshot_of pg1) new2" by blast
    from n2(2) have "list_all (snapshot_of pg) new2"
      by (rule list.pred_mono_strong) (rule snapshot_of_trans[OF remove_body_header[OF body]])
    with n1 n2 have "evs' = evs @ (new1 @ new2) \<and> list_all (snapshot_of pg) (new1 @ new2)" by simp
    then show ?thesis by blast
  qed
qed

lemma remove_key_events:
  assumes "remove_key this k pg = Inr (sh, pg', evs)"
  shows "list_all (\<lambda>ev. case ev of Clflush a l snap \<Rightarrow> switch_counter snap = switch_counter pg'
                              | ClflushRoot a \<Rightarrow> False) evs"
proof -
  define pg0 where "pg0 = (if IS_FORWARD (switch_counter pg) then pg\<lparr>switch_counter := switch_counter pg + 1\<rparr> else pg)"
  from assms obtain pg1 where rl: "remove_loop this k 0 (False, pg0, []) = Inr (sh, pg1, evs)"
    and res: "pg' = (if sh then pg1\<lparr>last_index := last_index pg1 - 1\<rparr> else pg1)"
    unfolding remove_key_def pg0_def[symmetric]
    by (auto simp: Let_def split: sum.splits)
  from remove_loop_header[OF rl] have sc: "switch_counter pg' = switch_counter pg0"
    unfolding res by (simp add: same_header_def)
  from remove_loop_events[OF rl] have "list_all (snapshot_of pg0) evs" by simp
  then show ?thesis
    by (rule list.pred_mono_strong) (rule snapshot_of_switch_counter[OF _ sc])
qed

lemma insert_key_events:
  assumes "insert_key this k p n fl pg = Inr (pg', evs)"
  shows "list_all (\<lambda>ev. case ev of Clflush a l snap \<Rightarrow> switch_counter snap = switch_counter pg'
                              | ClflushRoot a \<Rightarrow> False) evs"
proof -
  have sc: "switch_counter pg' = switch_counter (insert_key_hdr pg)"
    using insert_key_switch_counter[OF assms] by (simp add: insert_key_hdr_def)
  from insert_key_frame[OF assms] have "list_all (snapshot_of (insert_key_hdr pg)) evs" by simp
  then show ?thesis
    by (rule list.pred_mono_strong) (rule snapshot_of_switch_counter[OF _ sc])
qed

lemma not_isl_Inr: "\<not> isl x \<Longrightarrow> \<exists>y. x = Inr y"
  by (cases x) auto

text \<open>
  Claim C10. \<open>insert_key\<close> adds one to the node's \<open>switch_counter\<close> exactly when it is
  odd and leaves an even counter as it is; \<open>remove_key\<close> adds one exactly when it is even
  and leaves an odd counter as it is (whether or not the key is found). So the counter
  is even after a completed \<open>insert_key\<close> and odd after a completed \<open>remove_key\<close>, and it
  already has that value in every page flushed during the shift. The update at a FAIR
  split is \<open>+2\<close> on an even counter and \<open>+1\<close> on an odd one; it is the counter of the
  split node when \<open>fair_split\<close> returns, and it is even. The counter is a \<open>uint8_t\<close>: the
  additions wrap at 256, which keeps the parity.
\<close>

theorem switch_counter_parity:
  "(insert_key this k p n fl pg = Inr (pg', evs) \<longrightarrow>
      switch_counter pg' = (if IS_FORWARD (switch_counter pg) then switch_counter pg
                            else switch_counter pg + 1) \<and>
      IS_FORWARD (switch_counter pg') \<and>
      list_all (\<lambda>ev. case ev of Clflush a l snap \<Rightarrow> switch_counter snap = switch_counter pg'
                              | ClflushRoot a \<Rightarrow> False) evs) \<and>
   (remove_key this k pg = Inr (sh, pg'', evs') \<longrightarrow>
      switch_counter pg'' = (if IS_FORWARD (switch_counter pg) then switch_counter pg + 1
                             else switch_counter pg) \<and>
      \<not> IS_FORWARD (switch_counter pg'') \<and>
      list_all (\<lambda>ev. case ev of Clflush a l snap \<Rightarrow> switch_counter snap = switch_counter pg''
                              | ClflushRoot a \<Rightarrow> False) evs') \<and>
   split_bump (switch_counter pg) = (if IS_FORWARD (switch_counter pg) then switch_counter pg + 2
                                     else switch_counter pg + 1) \<and>
   IS_FORWARD (split_bump (switch_counter pg)) \<and>
   (fair_split this k right pg n s = Inr (ret, sk, sib, s1) \<and> page_at s this = Inr pg \<longrightarrow>
      (\<exists>pgN. page_at s1 this = Inr pgN \<and>
         switch_counter pgN = (if IS_FORWARD (switch_counter pg) then switch_counter pg + 2
                               else switch_counter pg + 1) \<and>
         IS_FORWARD (switch_counter pgN)))"
proof (intro conjI impI)
  assume a: "insert_key this k p n fl pg = Inr (pg', evs)"
  from insert_key_switch_counter[OF a]
  show "switch_counter pg' = (if IS_FORWARD (switch_counter pg) then switch_counter pg
                            else switch_counter pg + 1)" .
  then show "IS_FORWARD (switch_counter pg')" by (simp add: IS_FORWARD_succ)
  from insert_key_events[OF a]
  show "list_all (\<lambda>ev. case ev of Clflush a l snap \<Rightarrow> switch_counter snap = switch_counter pg'
                              | ClflushRoot a \<Rightarrow> False) evs" .
next
  assume a: "remove_key this k pg = Inr (sh, pg'', evs')"
  from remove_key_switch_counter[OF a]
  show "switch_counter pg'' = (if IS_FORWARD (switch_counter pg) then switch_counter pg + 1
                             else switch_counter pg)" .
  then show "\<not> IS_FORWARD (switch_counter pg'')" by (simp add: IS_FORWARD_succ)
  from remove_key_events[OF a]
  show "list_all (\<lambda>ev. case ev of Clflush a l snap \<Rightarrow> switch_counter snap = switch_counter pg''
                              | ClflushRoot a \<Rightarrow> False) evs'" .
next
  show "split_bump (switch_counter pg) = (if IS_FORWARD (switch_counter pg) then switch_counter pg + 2
                                     else switch_counter pg + 1)"
    by (simp add: split_bump_def)
  show "IS_FORWARD (split_bump (switch_counter pg))" by (rule IS_FORWARD_split_bump)
next
  assume a: "fair_split this k right pg n s = Inr (ret, sk, sib, s1) \<and> page_at s this = Inr pg"
  from fair_split_switch_counter[of this k right pg n s ret sk sib s1] a
  obtain pgN where n: "page_at s1 this = Inr pgN" "switch_counter pgN = split_bump (switch_counter pg)"
    by blast
  from n(2) have "switch_counter pgN = (if IS_FORWARD (switch_counter pg) then switch_counter pg + 2
                               else switch_counter pg + 1)"
    by (simp add: split_bump_def)
  moreover from n(2) have "IS_FORWARD (switch_counter pgN)" by (simp add: IS_FORWARD_split_bump)
  ultimately show "\<exists>pgN. page_at s1 this = Inr pgN \<and>
         switch_counter pgN = (if IS_FORWARD (switch_counter pg) then switch_counter pg + 2
                               else switch_counter pg + 1) \<and>
         IS_FORWARD (switch_counter pgN)"
    using n(1) by blast
qed

theorem switch_counter_parity_witness:
  "(case insert_key heap_base 5 5 0 True ((page_ctor 0)\<lparr>switch_counter := 1\<rparr>) of
      Inl e \<Rightarrow> False
    | Inr (pg', evs) \<Rightarrow> switch_counter pg' = 2 \<and> IS_FORWARD (switch_counter pg') \<and>
        list_all (\<lambda>ev. case ev of Clflush a l snap \<Rightarrow> switch_counter snap = switch_counter pg'
                              | ClflushRoot a \<Rightarrow> False) evs) \<and>
   (case insert_key heap_base 5 5 0 True ((page_ctor 0)\<lparr>switch_counter := 2\<rparr>) of
      Inl e \<Rightarrow> False
    | Inr (pg', evs) \<Rightarrow> switch_counter pg' = 2 \<and> IS_FORWARD (switch_counter pg') \<and>
        list_all (\<lambda>ev. case ev of Clflush a l snap \<Rightarrow> switch_counter snap = switch_counter pg'
                              | ClflushRoot a \<Rightarrow> False) evs) \<and>
   (case remove_key heap_base 20 (sample_leaf\<lparr>switch_counter := 2\<rparr>) of
      Inl e \<Rightarrow> False
    | Inr (sh, pg'', evs') \<Rightarrow> switch_counter pg'' = 3 \<and> \<not> IS_FORWARD (switch_counter pg'') \<and>
        list_all (\<lambda>ev. case ev of Clflush a l snap \<Rightarrow> switch_counter snap = switch_counter pg''
                              | ClflushRoot a \<Rightarrow> False) evs') \<and>
   (case remove_key heap_base 20 (sample_leaf\<lparr>switch_counter := 3\<rparr>) of
      Inl e \<Rightarrow> False
    | Inr (sh, pg'', evs') \<Rightarrow> switch_counter pg'' = 3 \<and> \<not> IS_FORWARD (switch_counter pg'') \<and>
        list_all (\<lambda>ev. case ev of Clflush a l snap \<Rightarrow> switch_counter snap = switch_counter pg''
                              | ClflushRoot a \<Rightarrow> False) evs') \<and>
   split_bump 2 = 4 \<and> split_bump 3 = 4 \<and>
   page_at full_leaf_state heap_base = Inr full_leaf \<and> switch_counter full_leaf = 0 \<and>
   (case fair_split heap_base 29 29 full_leaf 28 full_leaf_state of
      Inl e \<Rightarrow> False
    | Inr (ret, sk, sib, s1) \<Rightarrow>
        (case page_at s1 heap_base of
           Inl e \<Rightarrow> False
         | Inr pgN \<Rightarrow> switch_counter pgN = 2 \<and> IS_FORWARD (switch_counter pgN))) \<and>
   (case fair_split heap_base 29 29 (full_leaf\<lparr>switch_counter := 3\<rparr>) 28
           (set_page heap_base (full_leaf\<lparr>switch_counter := 3\<rparr>) full_leaf_state) of
      Inl e \<Rightarrow> False
    | Inr (ret, sk, sib, s1) \<Rightarrow>
        (case page_at s1 heap_base of
           Inl e \<Rightarrow> False
         | Inr pgN \<Rightarrow> switch_counter pgN = 4 \<and> IS_FORWARD (switch_counter pgN)))"
proof -
  let ?f3 = "full_leaf\<lparr>switch_counter := 3\<rparr>"
  let ?s3 = "set_page heap_base ?f3 full_leaf_state"
  let ?odd = "(page_ctor 0)\<lparr>switch_counter := 1\<rparr>"
  let ?even = "(page_ctor 0)\<lparr>switch_counter := 2\<rparr>"
  let ?l2 = "sample_leaf\<lparr>switch_counter := 2\<rparr>"
  let ?l3 = "sample_leaf\<lparr>switch_counter := 3\<rparr>"
  have par: "\<not> IS_FORWARD 1" "IS_FORWARD 2" "\<not> IS_FORWARD 3" "IS_FORWARD 0" by code_simp+
  have "\<not> isl (insert_key heap_base 5 5 0 True ?odd)" by code_simp
  then obtain pg1 evs1 where a1: "insert_key heap_base 5 5 0 True ?odd = Inr (pg1, evs1)"
    using not_isl_Inr by fastforce
  have "\<not> isl (insert_key heap_base 5 5 0 True ?even)" by code_simp
  then obtain pg2 evs2 where a2: "insert_key heap_base 5 5 0 True ?even = Inr (pg2, evs2)"
    using not_isl_Inr by fastforce
  have "\<not> isl (remove_key heap_base 20 ?l2)" by code_simp
  then obtain sh3 pg3 evs3 where b1: "remove_key heap_base 20 ?l2 = Inr (sh3, pg3, evs3)"
    using not_isl_Inr by fastforce
  have "\<not> isl (remove_key heap_base 20 ?l3)" by code_simp
  then obtain sh4 pg4 evs4 where b2: "remove_key heap_base 20 ?l3 = Inr (sh4, pg4, evs4)"
    using not_isl_Inr by fastforce
  have "\<not> isl (fair_split heap_base 29 29 full_leaf 28 full_leaf_state)" by code_simp
  then obtain ret sk sib s1 where c: "fair_split heap_base 29 29 full_leaf 28 full_leaf_state = Inr (ret, sk, sib, s1)"
    using not_isl_Inr by fastforce
  have d: "page_at full_leaf_state heap_base = Inr full_leaf" by code_simp
  have z: "switch_counter full_leaf = 0" by (simp add: full_leaf_def page_ctor_def)
  from switch_counter_parity[of heap_base 5 5 0 True ?odd pg1 evs1] a1 par
  have 1: "switch_counter pg1 = 2 \<and> IS_FORWARD (switch_counter pg1) \<and>
        list_all (\<lambda>ev. case ev of Clflush a l snap \<Rightarrow> switch_counter snap = switch_counter pg1
                              | ClflushRoot a \<Rightarrow> False) evs1" by simp
  from switch_counter_parity[of heap_base 5 5 0 True ?even pg2 evs2] a2 par
  have 2: "switch_counter pg2 = 2 \<and> IS_FORWARD (switch_counter pg2) \<and>
        list_all (\<lambda>ev. case ev of Clflush a l snap \<Rightarrow> switch_counter snap = switch_counter pg2
                              | ClflushRoot a \<Rightarrow> False) evs2" by simp
  from switch_counter_parity[of heap_base 20 _ _ _ ?l2 _ _ sh3 pg3 evs3] b1 par
  have 3: "switch_counter pg3 = 3 \<and> \<not> IS_FORWARD (switch_counter pg3) \<and>
        list_all (\<lambda>ev. case ev of Clflush a l snap \<Rightarrow> switch_counter snap = switch_counter pg3
                              | ClflushRoot a \<Rightarrow> False) evs3" "split_bump 2 = 4" by simp_all
  from switch_counter_parity[of heap_base 20 _ _ _ ?l3 _ _ sh4 pg4 evs4] b2 par
  have 4: "switch_counter pg4 = 3 \<and> \<not> IS_FORWARD (switch_counter pg4) \<and>
        list_all (\<lambda>ev. case ev of Clflush a l snap \<Rightarrow> switch_counter snap = switch_counter pg4
                              | ClflushRoot a \<Rightarrow> False) evs4" "split_bump 3 = 4" by simp_all
  note t = switch_counter_parity[of heap_base 29 29 28 True full_leaf _ _ _ _ _ 29 full_leaf_state ret sk sib s1]
  from t[THEN conjunct2, THEN conjunct2, THEN conjunct2, THEN conjunct2] c d
  have "\<exists>pgN. page_at s1 heap_base = Inr pgN \<and>
         switch_counter pgN = (if IS_FORWARD (switch_counter full_leaf) then switch_counter full_leaf + 2
                               else switch_counter full_leaf + 1) \<and>
         IS_FORWARD (switch_counter pgN)"
    by blast
  then obtain pgN where 5: "page_at s1 heap_base = Inr pgN" "switch_counter pgN = 2 \<and> IS_FORWARD (switch_counter pgN)"
    using z par by auto
  have "\<not> isl (fair_split heap_base 29 29 ?f3 28 ?s3)" by code_simp
  then obtain ret3 sk3 sib3 s3 where c3: "fair_split heap_base 29 29 ?f3 28 ?s3 = Inr (ret3, sk3, sib3, s3)"
    using not_isl_Inr by fastforce
  have d3: "page_at ?s3 heap_base = Inr ?f3" by (simp add: page_at_set_page)
  have par4: "IS_FORWARD 4" by code_simp
  note t3 = switch_counter_parity[of heap_base 29 29 28 True ?f3 _ _ _ _ _ 29 ?s3 ret3 sk3 sib3 s3]
  from t3[THEN conjunct2, THEN conjunct2, THEN conjunct2, THEN conjunct2] c3 d3
  have "\<exists>pgN. page_at s3 heap_base = Inr pgN \<and>
         switch_counter pgN = (if IS_FORWARD (switch_counter ?f3) then switch_counter ?f3 + 2
                               else switch_counter ?f3 + 1) \<and>
         IS_FORWARD (switch_counter pgN)"
    by blast
  then obtain pgM where 6: "page_at s3 heap_base = Inr pgM" "switch_counter pgM = 4 \<and> IS_FORWARD (switch_counter pgM)"
    using par by auto
  have "?thesis \<longleftrightarrow>
        (switch_counter pg1 = 2 \<and> IS_FORWARD (switch_counter pg1) \<and>
         list_all (\<lambda>ev. case ev of Clflush a l snap \<Rightarrow> switch_counter snap = switch_counter pg1
                              | ClflushRoot a \<Rightarrow> False) evs1) \<and>
        (switch_counter pg2 = 2 \<and> IS_FORWARD (switch_counter pg2) \<and>
         list_all (\<lambda>ev. case ev of Clflush a l snap \<Rightarrow> switch_counter snap = switch_counter pg2
                              | ClflushRoot a \<Rightarrow> False) evs2) \<and>
        (switch_counter pg3 = 3 \<and> \<not> IS_FORWARD (switch_counter pg3) \<and>
         list_all (\<lambda>ev. case ev of Clflush a l snap \<Rightarrow> switch_counter snap = switch_counter pg3
                              | ClflushRoot a \<Rightarrow> False) evs3) \<and>
        (switch_counter pg4 = 3 \<and> \<not> IS_FORWARD (switch_counter pg4) \<and>
         list_all (\<lambda>ev. case ev of Clflush a l snap \<Rightarrow> switch_counter snap = switch_counter pg4
                              | ClflushRoot a \<Rightarrow> False) evs4) \<and>
        split_bump 2 = 4 \<and> split_bump 3 = 4 \<and>
        page_at full_leaf_state heap_base = Inr full_leaf \<and> switch_counter full_leaf = 0 \<and>
        (switch_counter pgN = 2 \<and> IS_FORWARD (switch_counter pgN)) \<and>
        (switch_counter pgM = 4 \<and> IS_FORWARD (switch_counter pgM))"
    unfolding a1 a2 b1 b2 c c3 by (simp only: sum.case prod.case 5(1) 6(1))
  with 1 2 3 4 5(2) 6(2) d z show ?thesis by blast
qed

subsection \<open>The counter at the start of a FAST insert\<close>

text \<open>
  Claim C3, as amended. \<open>insert_key\<close> increments \<open>switch_counter\<close> exactly when it is
  odd, so the counter is even from the start of the insert on: in the page it returns
  and in every page it flushes on the way. An even counter is the one that sends
  readers left to right (\<open>IS_FORWARD\<close>).
\<close>

theorem insert_key_makes_counter_even:
  "insert_key this k p n fl pg = Inr (pg', evs) \<Longrightarrow>
   switch_counter pg' = (if IS_FORWARD (switch_counter pg) then switch_counter pg else switch_counter pg + 1) \<and>
   IS_FORWARD (switch_counter pg') \<and>
   list_all (\<lambda>ev. case ev of Clflush a l snap \<Rightarrow> switch_counter snap = switch_counter pg' | ClflushRoot a \<Rightarrow> False) evs"
proof -
  assume a: "insert_key this k p n fl pg = Inr (pg', evs)"
  have sc: "switch_counter pg' = switch_counter (insert_key_hdr pg)"
    using insert_key_switch_counter[OF a] by (simp add: insert_key_hdr_def)
  have even: "IS_FORWARD (switch_counter (insert_key_hdr pg))"
    by (simp add: insert_key_hdr_def IS_FORWARD_succ)
  from insert_key_frame[OF a] have "list_all (snapshot_of (insert_key_hdr pg)) evs" by simp
  then have "list_all (\<lambda>ev. case ev of Clflush a l snap \<Rightarrow> switch_counter snap = switch_counter pg' | ClflushRoot a \<Rightarrow> False) evs"
    by (rule list.pred_mono_strong) (rule snapshot_of_switch_counter[OF _ sc])
  moreover have "switch_counter pg' = (if IS_FORWARD (switch_counter pg) then switch_counter pg else switch_counter pg + 1)"
    using insert_key_switch_counter[OF a] .
  moreover have "IS_FORWARD (switch_counter pg')" using even sc by simp
  ultimately show ?thesis by blast
qed

theorem insert_key_makes_counter_even_witness:
  "(case insert_key heap_base 5 5 0 True ((page_ctor 0)\<lparr>switch_counter := 1\<rparr>) of
      Inl e \<Rightarrow> False
    | Inr (pg', evs) \<Rightarrow> switch_counter pg' = 2 \<and> IS_FORWARD (switch_counter pg') \<and>
        list_all (\<lambda>ev. case ev of Clflush a l snap \<Rightarrow> switch_counter snap = switch_counter pg' | ClflushRoot a \<Rightarrow> False) evs)"
proof -
  have "\<not> isl (insert_key heap_base 5 5 0 True ((page_ctor 0)\<lparr>switch_counter := 1\<rparr>))" by code_simp
  then obtain pg' evs where a: "insert_key heap_base 5 5 0 True ((page_ctor 0)\<lparr>switch_counter := 1\<rparr>) = Inr (pg', evs)"
    using not_isl_Inr by fastforce
  have b: "\<not> IS_FORWARD 1" by code_simp
  note h = insert_key_makes_counter_even[OF a]
  have "switch_counter pg' = 2" using h b by simp
  moreover have "IS_FORWARD (switch_counter pg')" using h by blast
  moreover have "list_all (\<lambda>ev. case ev of Clflush a l snap \<Rightarrow> switch_counter snap = switch_counter pg' | ClflushRoot a \<Rightarrow> False) evs"
    using h by blast
  ultimately show ?thesis unfolding a by (simp only: sum.case prod.case)
qed

text \<open>
  The claim as stated fails on a fresh page: its counter is 0, even, and \<open>insert_key\<close>
  leaves it at 0.
\<close>

theorem insert_key_even_counter_counterexample:
  "IS_FORWARD (switch_counter (page_ctor 0)) \<and>
   (case insert_key heap_base 5 5 0 True (page_ctor 0) of
      Inl e \<Rightarrow> False
    | Inr (pg', evs) \<Rightarrow> switch_counter pg' = switch_counter (page_ctor 0) \<and> IS_FORWARD (switch_counter pg'))"
  by code_simp

subsection \<open>Point lookup of a stored handle\<close>

text \<open>
  Claim C1 at a failing input: \<open>btree_insert(5, 7)\<close> on the empty tree, then
  \<open>btree_search(5)\<close>. The root leaf holds the entry \<open>(5, 7)\<close> and \<open>linear_search\<close>
  finds the handle 7, but \<open>btree_search\<close> returns \<open>NULL\<close>: its last test,
  \<open>(char *)t != (char *)key\<close>, rejects every handle that is not the key itself.
\<close>

theorem btree_search_misses_stored_handle:
  "(case btree_insert 3 5 7 btree_ctor of
      Inl e \<Rightarrow> False
    | Inr s \<Rightarrow>
        (case page_at s (root s) of
           Inl e \<Rightarrow> False
         | Inr pg \<Rightarrow> valid_entries pg = [\<lparr>key = 5, ptr = 7\<rparr>] \<and> linear_search s pg 5 = Inr 7) \<and>
        btree_search 3 5 s = Inr 0)"
  by code_simp

subsection \<open>Range scan\<close>

text \<open>
  Claim C6 at a failing input: the keys 1, 2, 3 inserted as their own handles, then
  \<open>btree_delete(3)\<close>. Before the delete the scan of \<open>(0, 10)\<close> writes 1, 2, 3. After
  it the leaf's counter is odd, the scan runs right to left, and it writes 2, 1; the
  scan of \<open>(0, 2)\<close> meets key 2 first, returns at once, and writes nothing.
\<close>

theorem range_scan_after_delete:
  "(case insert_all 3 (keys_as_handles [1, 2, 3]) btree_ctor of
      Inl e \<Rightarrow> False
    | Inr s \<Rightarrow>
        btree_search_range 3 s (root s) 0 10 = Inr [1, 2, 3] \<and>
        (case btree_delete 3 3 s of
           Inl e \<Rightarrow> False
         | Inr s1 \<Rightarrow>
             btree_search_range 3 s1 (root s1) 0 10 = Inr [2, 1] \<and>
             btree_search_range 3 s1 (root s1) 0 2 = Inr []))"
  by code_simp

subsection \<open>The split position\<close>

lemma split_point_floor: "split_point n = n div 2"
  by (simp add: split_point_def)

lemma count_scan_result:
  "count_scan fwd rs c = Inr r \<Longrightarrow> r < int cardinality \<and> (0 \<le> r \<longrightarrow> ptr (rs ! nat r) = 0)"
proof (induction fwd rs c rule: count_scan.induct)
  case (1 fwd rs c)
  from "1.prems" show ?case
    by (subst (asm) count_scan.simps) (auto split: if_splits dest: "1.IH")
qed

lemma count_scan_fwd_nonneg:
  "count_scan True rs c = Inr r \<Longrightarrow> 0 \<le> c \<Longrightarrow> 0 \<le> r"
proof (induction "nat (int cardinality - c)" arbitrary: c)
  case 0
  then show ?case by (subst (asm) count_scan.simps) (simp split: if_splits)
next
  case (Suc d)
  have d: "d = nat (int cardinality - (c + 1))" using Suc.hyps(2) by simp
  from Suc.prems have "r = c \<or> count_scan True rs (c + 1) = Inr r"
    by (subst (asm) count_scan.simps) (simp split: if_splits)
  then show ?case using Suc.hyps(1)[OF d] Suc.prems(2) by auto
qed

lemma count_result:
  assumes "count pg = Inr n"
  shows "n < cardinality \<and> ptr (records pg ! n) = 0"
proof -
  obtain c where c: "count_scan (IS_FORWARD (switch_counter pg)) (records pg) (last_index pg + 1) = Inr c"
    using assms unfolding count_def by (cases "count_scan (IS_FORWARD (switch_counter pg)) (records pg) (last_index pg + 1)") auto
  show ?thesis
  proof (cases "c < 0")
    case True
    then obtain c' where c': "count_scan True (records pg) 0 = Inr c'" and n: "n = nat c'"
      using assms c unfolding count_def by (cases "count_scan True (records pg) 0") auto
    from count_scan_fwd_nonneg[OF c'] have "0 \<le> c'" by simp
    with count_scan_result[OF c'] n show ?thesis by auto
  next
    case False
    then have n: "n = nat c" using assms c unfolding count_def by simp
    with count_scan_result[OF c] False show ?thesis by auto
  qed
qed

text \<open>
  The source computes \<open>(int) ceil(num_entries/2)\<close> on an integer quotient, which is
  \<open>num_entries div 2\<close>, the floor (lemma \<open>split_point_floor\<close>); at an odd count it is one
  less than the ceiling of the exact quotient. \<open>count()\<close> can only return an index inside
  \<open>records\<close>, so \<open>store\<close> takes the FAIR branch at \<open>num_entries = cardinality - 1 = 28\<close>
  only, an even number, where the floor and the ceiling are both 14. The split key is
  the key of the entry at the split position.
\<close>

lemma split_point_odd: "split_point 27 = 13 \<and> nat \<lceil>real 27 / 2\<rceil> = 14"
  by (simp add: split_point_def)

lemma fair_split_position:
  assumes "count pg = Inr num_entries" and "\<not> num_entries < cardinality - 1"
    and "fair_split this k right pg num_entries s = Inr (ret, split_key, sibling, s1)"
  shows "split_point num_entries = nat \<lceil>real num_entries / 2\<rceil> \<and>
         split_key = key (records pg ! split_point num_entries)"
proof -
  from count_result[OF assms(1)] assms(2) have n: "num_entries = 28"
    by (simp add: cardinality_eq)
  have "split_point num_entries = nat \<lceil>real num_entries / 2\<rceil>"
    unfolding n by (simp add: split_point_def)
  moreover from assms(3) have "split_key = key (records pg ! split_point num_entries)"
    unfolding fair_split_def by (auto simp: Let_def split: sum.splits prod.splits if_splits)
  ultimately show ?thesis by simp
qed

lemma fair_split_position_at_full_leaf:
  "count full_leaf = Inr 28 \<and> \<not> 28 < cardinality - 1 \<and>
   (case fair_split heap_base 29 29 full_leaf 28 full_leaf_state of
      Inl e \<Rightarrow> False
    | Inr (ret, split_key, sibling, s1) \<Rightarrow>
        split_point 28 = nat \<lceil>real 28 / 2\<rceil> \<and> split_point 28 = 14 \<and> 
        split_key = key (records full_leaf ! split_point 28) \<and> split_key = 15)"
proof -
  have a: "count full_leaf = Inr 28" by code_simp
  have b: "\<not> 28 < cardinality - 1" by (simp add: cardinality_eq)
  have "\<not> isl (fair_split heap_base 29 29 full_leaf 28 full_leaf_state)" by code_simp
  then obtain ret split_key sibling s1 where
    c: "fair_split heap_base 29 29 full_leaf 28 full_leaf_state = Inr (ret, split_key, sibling, s1)"
    using not_isl_Inr by fastforce
  have d: "key (records full_leaf ! 14) = 15" by code_simp
  have e: "split_point 28 = 14" by (simp add: split_point_def)
  from fair_split_position[OF a b c] e d
  have "split_point 28 = nat \<lceil>real 28 / 2\<rceil>" "split_key = key (records full_leaf ! split_point 28)" "split_key = 15"
    by simp_all
  then show ?thesis using a b e unfolding c by (simp only: sum.case prod.case simp_thms)
qed

subsection \<open>The FAST shift on the list of entries\<close>

lemma entry_update_all [simp]: "e\<lparr>key := k, ptr := p\<rparr> = \<lparr>key = k, ptr = p\<rparr>"
  by (cases e) simp

lemma entry_update_all' [simp]: "e\<lparr>ptr := p, key := k\<rparr> = \<lparr>key = k, ptr = p\<rparr>"
  by (cases e) simp

lemma entry_eta [simp]: "\<lparr>key = key e, ptr = ptr e\<rparr> = e"
  by (cases e) simp

lemma update_twice:
  "(rs[i := a])[i := f (rs[i := a] ! i)] = rs[i := f a]"
  by (cases "i < length rs") (simp_all add: not_less list_update_beyond)

lemma entries_insert_Nil [simp]: "entries_insert k p [] = [\<lparr>key = k, ptr = p\<rparr>]"
  by (simp add: entries_insert_def)

lemma entries_insert_snoc:
  "entries_insert k p (xs @ [x]) =
     (if k <s key x then entries_insert k p xs @ [x] else xs @ [x, \<lparr>key = k, ptr = p\<rparr>])"
  by (simp add: entries_insert_def)

lemma fast_shift_Suc_fst:
  "fst (fast_shift this k p fl (Suc i) (pg, evs)) =
     (if k <s key (records pg ! i)
      then fst (fast_shift this k p fl i (pg\<lparr>records := (records pg)[Suc i := records pg ! i]\<rparr>,
             evs @ (if fl \<and> do_flush (rec_addr this (Suc i))
                    then [Clflush (rec_addr this (Suc i)) CACHE_LINE_SIZE
                            (pg\<lparr>records := (records pg)[Suc i := records pg ! i]\<rparr>)] else [])))
      else pg\<lparr>records := (records pg)[Suc i := \<lparr>key = k, ptr = p\<rparr>]\<rparr>)"
proof (cases "Suc i < length (records pg)")
  case True
  then show ?thesis by (simp add: Let_def)
next
  case False
  then show ?thesis by (simp add: Let_def not_less list_update_beyond)
qed

lemma fast_shift_0_fst:
  "fst (fast_shift this k p fl 0 (pg, evs)) = pg\<lparr>records := (records pg)[0 := \<lparr>key = k, ptr = p\<rparr>]\<rparr>"
  by (cases "0 < length (records pg)") (simp_all add: Let_def not_less list_update_beyond)

lemma fast_shift_records:
  "records pg = xs @ y # zs \<Longrightarrow>
   records (fst (fast_shift this k p fl (length xs) (pg, evs))) = entries_insert k p xs @ zs"
proof (induction xs arbitrary: pg evs y zs rule: rev_induct)
  case Nil
  then show ?case by (simp del: fast_shift.simps add: fast_shift_0_fst)
next
  case (snoc x xs)
  have i: "records pg ! length xs = x" using snoc.prems by (simp add: nth_append)
  show ?case
  proof (cases "k <s key x")
    case True
    have upd: "(records pg)[Suc (length xs) := x] = xs @ x # x # zs"
      using snoc.prems by (simp add: list_update_append)
    show ?thesis
      using True i snoc.IH[of _ x "x # zs"]
      by (simp del: fast_shift.simps add: fast_shift_Suc_fst upd entries_insert_snoc)
  next
    case False
    have upd: "(records pg)[Suc (length xs) := \<lparr>key = k, ptr = p\<rparr>] = xs @ x # \<lparr>key = k, ptr = p\<rparr> # zs"
      using snoc.prems by (simp add: list_update_append)
    show ?thesis
      using False i by (simp del: fast_shift.simps add: fast_shift_Suc_fst upd entries_insert_snoc)
  qed
qed


lemma fast_shift_fst_indep:
  "fst (fast_shift this k p fl j (pg, evs)) = fst (fast_shift this k p False j (pg, []))"
proof (induction j arbitrary: pg evs)
  case 0
  show ?case by (simp del: fast_shift.simps add: fast_shift_0_fst)
next
  case (Suc j)
  show ?case
    by (simp del: fast_shift.simps add: fast_shift_Suc_fst Suc.IH[of _ "_ @ _"] Suc.IH[of _ "[]"])
qed

lemma insert_key_unfold:
  assumes "n \<noteq> 0" "n + 1 < cardinality"
  shows "\<exists>evs0. insert_key this k p n fl pg =
           Inr ((fst (fast_shift this k p fl n
                   ((insert_key_hdr pg)\<lparr>records := (records pg)[n + 1 := (records pg ! (n + 1))\<lparr>ptr := ptr (records pg ! n)\<rparr>]\<rparr>, evs0)))
                  \<lparr>last_index := int n\<rparr>,
                snd (fast_shift this k p fl n
                   ((insert_key_hdr pg)\<lparr>records := (records pg)[n + 1 := (records pg ! (n + 1))\<lparr>ptr := ptr (records pg ! n)\<rparr>]\<rparr>, evs0)))"
  using assms
  by (auto simp: insert_key_def Let_def case_prod_beta insert_key_hdr_def simp del: fast_shift.simps)

lemma insert_key_records:
  assumes rs: "records pg = ve @ t # z # zs" and n: "length ve = n" and t: "ptr t = 0"
    and room: "n + 1 < cardinality"
  shows "\<exists>pg' evs. insert_key this k p n fl pg = Inr (pg', evs) \<and>
           records pg' = entries_insert k p ve @ z\<lparr>ptr := 0\<rparr> # zs"
proof (cases "n = 0")
  case True
  with rs n room show ?thesis
    by (simp add: insert_key_def Let_def)
next
  case False
  define pg1 where "pg1 = (insert_key_hdr pg)\<lparr>records := (records pg)[n + 1 := (records pg ! (n + 1))\<lparr>ptr := ptr (records pg ! n)\<rparr>]\<rparr>"
  have rs1: "records pg1 = ve @ t # z\<lparr>ptr := 0\<rparr> # zs"
    using rs n t by (simp add: pg1_def list_update_append nth_append)
  from insert_key_unfold[OF False room, of this k p fl pg] obtain evs0 where
    ik: "insert_key this k p n fl pg =
           Inr ((fst (fast_shift this k p fl n (pg1, evs0)))\<lparr>last_index := int n\<rparr>,
                snd (fast_shift this k p fl n (pg1, evs0)))"
    unfolding pg1_def by blast
  have "records (fst (fast_shift this k p fl n (pg1, evs0))) = entries_insert k p ve @ z\<lparr>ptr := 0\<rparr> # zs"
    using fast_shift_records[OF rs1, of this k p fl evs0] n by simp
  with ik show ?thesis by simp
qed

lemma length_takeWhile_dropWhile: "length (takeWhile P xs) + length (dropWhile P xs) = length xs"
  by (induction xs) auto

lemma length_entries_insert [simp]: "length (entries_insert k p es) = Suc (length es)"
  using length_takeWhile_dropWhile[of "\<lambda>e. k <s key e" "rev es"]
  by (simp add: entries_insert_def)

lemma valid_entries_decomp:
  assumes "length (valid_entries pg) < length (records pg)"
  shows "\<exists>t rest. records pg = valid_entries pg @ t # rest \<and> ptr t = 0"
proof -
  let ?P = "\<lambda>e. ptr e \<noteq> 0"
  have split: "records pg = takeWhile ?P (records pg) @ dropWhile ?P (records pg)" by simp
  have ne: "dropWhile ?P (records pg) \<noteq> []"
  proof
    assume e: "dropWhile ?P (records pg) = []"
    from length_takeWhile_dropWhile[of ?P "records pg"]
    have "length (takeWhile ?P (records pg)) = length (records pg)" unfolding e by simp
    with assms show False unfolding valid_entries_def by simp
  qed
  then obtain t rest where d: "dropWhile ?P (records pg) = t # rest" by (cases "dropWhile ?P (records pg)") auto
  have "\<not> ?P t" using hd_dropWhile[OF ne] d by simp
  then have "ptr t = 0" by simp
  moreover have "records pg = valid_entries pg @ t # rest"
    unfolding valid_entries_def using split d by simp
  ultimately show ?thesis by blast
qed

lemma valid_entries_all: "e \<in> set (valid_entries pg) \<Longrightarrow> ptr e \<noteq> 0"
  unfolding valid_entries_def by (auto dest: set_takeWhileD)

lemma valid_entries_append:
  "records pg = es @ t # rest \<Longrightarrow> ptr t = 0 \<Longrightarrow> \<forall>e \<in> set es. ptr e \<noteq> 0 \<Longrightarrow> valid_entries pg = es"
  unfolding valid_entries_def by simp

lemma set_entries_insert: "set (entries_insert k p es) = insert \<lparr>key = k, ptr = p\<rparr> (set es)"
proof -
  have "set (rev es) = set (takeWhile (\<lambda>e. k <s key e) (rev es) @ dropWhile (\<lambda>e. k <s key e) (rev es))"
    by simp
  then have "set es = set (rev (dropWhile (\<lambda>e. k <s key e) (rev es))) \<union> set (rev (takeWhile (\<lambda>e. k <s key e) (rev es)))"
    unfolding set_append set_rev by blast
  then show ?thesis unfolding entries_insert_def by auto
qed

lemma sorted_entries_insert:
  "sorted (map (\<lambda>e. sint (key e)) es) \<Longrightarrow> sorted (map (\<lambda>e. sint (key e)) (entries_insert k p es))"
proof (induction es rule: rev_induct)
  case Nil
  show ?case by simp
next
  case (snoc x xs)
  from snoc.prems have sx: "sorted (map (\<lambda>e. sint (key e)) xs)" and le: "\<forall>e \<in> set xs. sint (key e) \<le> sint (key x)"
    by (auto simp: sorted_append)
  show ?case
  proof (cases "k <s key x")
    case True
    then have "sint k < sint (key x)" by (simp add: word_sless_alt)
    with snoc.IH[OF sx] le show ?thesis
      by (auto simp: entries_insert_snoc True sorted_append set_entries_insert)
  next
    case False
    then have "sint (key x) \<le> sint k" by (simp add: word_sless_alt)
    with snoc.prems le show ?thesis
      by (auto simp: entries_insert_snoc False sorted_append)
  qed
qed

lemma insert_key_valid_entries:
  assumes len: "length (records pg) = cardinality" and room: "length (valid_entries pg) + 1 < cardinality"
  shows "\<exists>pg' evs. insert_key this k p (length (valid_entries pg)) fl pg = Inr (pg', evs) \<and>
           length (records pg') = cardinality \<and>
           valid_entries pg' =
             (if p = 0 then rev (dropWhile (\<lambda>e. k <s key e) (rev (valid_entries pg)))
              else entries_insert k p (valid_entries pg))"
proof -
  let ?ve = "valid_entries pg"
  from valid_entries_decomp[of pg] len room obtain t rest where
    d: "records pg = ?ve @ t # rest" and t: "ptr t = 0" by auto
  from arg_cong[OF d, of length] len room have "rest \<noteq> []" by (cases rest) auto
  then obtain z zs where rest: "rest = z # zs" by (cases rest) auto
  from insert_key_records[OF d[unfolded rest] refl t room, of this k p fl] obtain pg' evs where
    ik: "insert_key this k p (length ?ve) fl pg = Inr (pg', evs)"
    and rs': "records pg' = entries_insert k p ?ve @ z\<lparr>ptr := 0\<rparr> # zs" by blast
  have l': "length (records pg') = cardinality"
    using rs' len arg_cong[OF d, of length] rest by simp
  have nz: "\<forall>e \<in> set ?ve. ptr e \<noteq> 0" using valid_entries_all by blast
  have "valid_entries pg' = (if p = 0 then rev (dropWhile (\<lambda>e. k <s key e) (rev ?ve)) else entries_insert k p ?ve)"
  proof (cases "p = 0")
    case True
    have "records pg' = rev (dropWhile (\<lambda>e. k <s key e) (rev ?ve)) @ \<lparr>key = k, ptr = p\<rparr> #
            (rev (takeWhile (\<lambda>e. k <s key e) (rev ?ve)) @ z\<lparr>ptr := 0\<rparr> # zs)"
      using rs' by (simp add: entries_insert_def)
    moreover have "\<forall>e \<in> set (rev (dropWhile (\<lambda>e. k <s key e) (rev ?ve))). ptr e \<noteq> 0"
      using nz by (auto dest: set_dropWhileD)
    ultimately show ?thesis using True valid_entries_append[of pg'] by simp
  next
    case False
    have "\<forall>e \<in> set (entries_insert k p ?ve). ptr e \<noteq> 0"
      using nz False by (auto simp: set_entries_insert)
    then show ?thesis using False rs' valid_entries_append[of pg' "entries_insert k p ?ve" "z\<lparr>ptr := 0\<rparr>" zs] by simp
  qed
  with ik l' show ?thesis by blast
qed


subsection \<open>The remove loop on the list of entries\<close>

lemma remove_body_shift:
  "fst (remove_body this k i (sh, pg, evs)) = (sh \<or> key (records pg ! i) = k)"
  by (auto simp: remove_body_def Let_def)

lemma remove_body_records:
  "records (fst (snd (remove_body this k i (sh, pg, evs)))) =
     (if sh \<or> key (records pg ! i) = k then (records pg)[i := records pg ! (i + 1)] else records pg)"
proof (cases "i < length (records pg)")
  case True
  then show ?thesis by (simp add: remove_body_def Let_def)
next
  case False
  then show ?thesis by (simp add: remove_body_def Let_def not_less list_update_beyond)
qed

lemma remove_loop_unfold:
  "i + 1 < cardinality \<Longrightarrow> ptr (records pg ! i) \<noteq> 0 \<Longrightarrow>
   remove_loop this k i (sh, pg, evs) = remove_loop this k (Suc i) (remove_body this k i (sh, pg, evs))"
  by (subst remove_loop.simps) simp

lemma remove_loop_stop:
  "i < cardinality \<Longrightarrow> ptr (records pg ! i) = 0 \<Longrightarrow>
   remove_loop this k i (sh, pg, evs) = Inr (sh, pg, evs)"
  by (subst remove_loop.simps) simp

lemma remove_loop_shift:
  assumes "records pg = xs @ cs @ t # zs" "length xs = i" "\<forall>e \<in> set cs. ptr e \<noteq> 0" "ptr t = 0"
    and "i + length cs < cardinality"
  shows "\<exists>pg' evs'. remove_loop this k i (True, pg, evs) = Inr (True, pg', evs') \<and>
           records pg' = xs @ tl (cs @ [t]) @ t # zs"
  using assms
proof (induction cs arbitrary: xs i pg evs)
  case Nil
  then have "ptr (records pg ! i) = 0" by (simp add: nth_append)
  with Nil show ?case by (simp add: remove_loop_stop)
next
  case (Cons c cs)
  obtain sh1 pg1 evs1 where body: "remove_body this k i (True, pg, evs) = (sh1, pg1, evs1)"
    by (cases "remove_body this k i (True, pg, evs)")
  have sh1: "sh1 = True" using remove_body_shift[of this k i True pg evs] body by simp
  have nxt: "records pg ! (i + 1) = hd (cs @ [t])"
    using Cons.prems(1,2) by (cases cs) (simp_all add: nth_append)
  have rs1: "records pg1 = (xs @ [hd (cs @ [t])]) @ cs @ t # zs"
    using remove_body_records[of this k i True pg evs] body nxt Cons.prems(1,2)
    by (simp add: list_update_append)
  have nz: "ptr (records pg ! i) \<noteq> 0" using Cons.prems(1,2,3) by (simp add: nth_append)
  have step: "remove_loop this k i (True, pg, evs) = remove_loop this k (Suc i) (True, pg1, evs1)"
    using remove_loop_unfold[of i pg this k True evs] nz Cons.prems(5) body sh1 by simp
  from Cons.IH[OF rs1, of "Suc i" evs1] Cons.prems obtain pg' evs' where
    "remove_loop this k (Suc i) (True, pg1, evs1) = Inr (True, pg', evs')"
    "records pg' = (xs @ [hd (cs @ [t])]) @ tl (cs @ [t]) @ t # zs"
    by auto
  then show ?case unfolding step by (cases cs) simp_all
qed

lemma remove_loop_search:
  assumes "records pg = xs @ cs @ t # zs" "length xs = i" "\<forall>e \<in> set cs. ptr e \<noteq> 0" "ptr t = 0"
    and "i + length cs < cardinality"
  shows "\<exists>pg' evs'. remove_loop this k i (False, pg, evs) = Inr (k \<in> key ` set cs, pg', evs') \<and>
           records pg' = (if k \<in> key ` set cs then xs @ entries_remove k cs @ t # t # zs
                          else xs @ cs @ t # zs)"
  using assms
proof (induction cs arbitrary: xs i pg evs)
  case Nil
  then have "ptr (records pg ! i) = 0" by (simp add: nth_append)
  with Nil show ?case by (simp add: remove_loop_stop)
next
  case (Cons c cs)
  obtain sh1 pg1 evs1 where body: "remove_body this k i (False, pg, evs) = (sh1, pg1, evs1)"
    by (cases "remove_body this k i (False, pg, evs)")
  have cur: "records pg ! i = c" using Cons.prems(1,2) by (simp add: nth_append)
  have sh1: "sh1 = (key c = k)" using remove_body_shift[of this k i False pg evs] body cur by simp
  have nz: "ptr (records pg ! i) \<noteq> 0" using Cons.prems(3) cur by simp
  have step: "remove_loop this k i (False, pg, evs) = remove_loop this k (Suc i) (sh1, pg1, evs1)"
    using remove_loop_unfold[of i pg this k False evs] nz Cons.prems(5) body by simp
  show ?case
  proof (cases "key c = k")
    case True
    have nxt: "records pg ! (i + 1) = hd (cs @ [t])"
      using Cons.prems(1,2) by (cases cs) (simp_all add: nth_append)
    have rs1: "records pg1 = (xs @ [hd (cs @ [t])]) @ cs @ t # zs"
      using remove_body_records[of this k i False pg evs] body nxt cur True Cons.prems(1,2)
      by (simp add: list_update_append)
    from remove_loop_shift[OF rs1, of "Suc i" this k evs1] Cons.prems obtain pg' evs' where
      "remove_loop this k (Suc i) (True, pg1, evs1) = Inr (True, pg', evs')"
      "records pg' = (xs @ [hd (cs @ [t])]) @ tl (cs @ [t]) @ t # zs"
      by auto
    then show ?thesis unfolding step sh1 using True by (cases cs) auto
  next
    case False
    have rs1: "records pg1 = (xs @ [c]) @ cs @ t # zs"
      using remove_body_records[of this k i False pg evs] body cur False Cons.prems(1) by simp
    from Cons.IH[OF rs1, of "Suc i" evs1] Cons.prems obtain pg' evs' where
      "remove_loop this k (Suc i) (False, pg1, evs1) = Inr (k \<in> key ` set cs, pg', evs')"
      "records pg' = (if k \<in> key ` set cs then (xs @ [c]) @ entries_remove k cs @ t # t # zs
                          else (xs @ [c]) @ cs @ t # zs)"
      by auto
    then show ?thesis unfolding step sh1 using False by auto
  qed
qed

lemma set_entries_remove: "set (entries_remove k es) \<subseteq> set es"
  by (induction es) auto

lemma entries_remove_absent: "k \<notin> key ` set es \<Longrightarrow> entries_remove k es = es"
  by (induction es) auto

lemma length_entries_remove: "k \<in> key ` set es \<Longrightarrow> Suc (length (entries_remove k es)) = length es"
  by (induction es) auto

lemma sorted_entries_remove:
  "sorted (map (\<lambda>e. sint (key e)) es) \<Longrightarrow> sorted (map (\<lambda>e. sint (key e)) (entries_remove k es))"
  using set_entries_remove[of k] by (induction es) auto

lemma remove_key_valid_entries:
  assumes len: "length (records pg) = cardinality" and tm: "length (valid_entries pg) < cardinality"
  shows "\<exists>pg' evs. remove_key this k pg = Inr (k \<in> key ` set (valid_entries pg), pg', evs) \<and>
           length (records pg') = cardinality \<and>
           valid_entries pg' = entries_remove k (valid_entries pg)"
proof -
  let ?ve = "valid_entries pg"
  define pg0 where "pg0 = (if IS_FORWARD (switch_counter pg) then pg\<lparr>switch_counter := switch_counter pg + 1\<rparr> else pg)"
  from valid_entries_decomp[of pg] len tm obtain t rest where
    d: "records pg = ?ve @ t # rest" and t: "ptr t = 0" by auto
  have d0: "records pg0 = [] @ ?ve @ t # rest" using d by (simp add: pg0_def)
  have nz: "\<forall>e \<in> set ?ve. ptr e \<noteq> 0" using valid_entries_all by blast
  from remove_loop_search[OF d0 _ nz t, of 0 this k "[]"] tm obtain pg1 evs1 where
    rl: "remove_loop this k 0 (False, pg0, []) = Inr (k \<in> key ` set ?ve, pg1, evs1)"
    and rs1: "records pg1 = (if k \<in> key ` set ?ve then entries_remove k ?ve @ t # t # rest else ?ve @ t # rest)"
    by auto
  define pg' where "pg' = (if k \<in> key ` set ?ve then pg1\<lparr>last_index := last_index pg1 - 1\<rparr> else pg1)"
  have rk: "remove_key this k pg = Inr (k \<in> key ` set ?ve, pg', evs1)"
    unfolding remove_key_def pg0_def[symmetric] by (simp add: rl pg'_def Let_def)
  have rs': "records pg' = (if k \<in> key ` set ?ve then entries_remove k ?ve @ t # t # rest else ?ve @ t # rest)"
    using rs1 by (simp add: pg'_def)
  have l': "length (records pg') = cardinality"
    using rs' len arg_cong[OF d, of length] length_entries_remove[of k ?ve] by (auto split: if_splits)
  have nz': "\<forall>e \<in> set (entries_remove k ?ve). ptr e \<noteq> 0"
    using nz set_entries_remove[of k ?ve] by blast
  have "valid_entries pg' = entries_remove k ?ve"
  proof (cases "k \<in> key ` set ?ve")
    case True
    then show ?thesis using rs' nz' t valid_entries_append[of pg' "entries_remove k ?ve" t "t # rest"] by simp
  next
    case False
    then show ?thesis using rs' nz t valid_entries_append[of pg' ?ve t rest] entries_remove_absent[of k ?ve] by simp
  qed
  with rk l' show ?thesis by blast
qed


lemma sorted_keys_prefix:
  assumes "sorted (map (\<lambda>e. sint (key e)) es)"
  shows "sorted (map (\<lambda>e. sint (key e)) (rev (dropWhile P (rev es))))"
proof -
  have "es = rev (dropWhile P (rev es)) @ rev (takeWhile P (rev es))"
    by (metis rev_append rev_rev_ident takeWhile_dropWhile_id)
  with assms show ?thesis by (metis map_append sorted_append)
qed

subsection \<open>Sorted valid entries\<close>

text \<open>
  Claim C7. Take a node whose \<open>records\<close> array has its \<open>cardinality\<close> slots and whose
  valid entries are sorted by key. If the valid prefix leaves room for one more entry
  and its terminator, \<open>insert_key\<close> called with the number of valid entries (as \<open>store\<close>
  calls it, with \<open>count()\<close>) completes and leaves the valid entries sorted; and if the
  valid prefix ends inside the array, \<open>remove_key\<close> completes and leaves them sorted.
\<close>

theorem sorted_keys_preserved:
  assumes "length (records pg) = cardinality" and "sorted_keys pg"
  shows "(length (valid_entries pg) + 1 < cardinality \<longrightarrow>
           (\<exists>pg' evs. insert_key this k p (length (valid_entries pg)) fl pg = Inr (pg', evs) \<and> sorted_keys pg')) \<and>
         (length (valid_entries pg) < cardinality \<longrightarrow>
           (\<exists>sh pg' evs. remove_key this k pg = Inr (sh, pg', evs) \<and> sorted_keys pg'))"
proof (intro conjI impI)
  assume room: "length (valid_entries pg) + 1 < cardinality"
  from insert_key_valid_entries[OF assms(1) room, of this k p fl] obtain pg' evs where
    ik: "insert_key this k p (length (valid_entries pg)) fl pg = Inr (pg', evs)"
    and ve: "valid_entries pg' =
             (if p = 0 then rev (dropWhile (\<lambda>e. k <s key e) (rev (valid_entries pg)))
              else entries_insert k p (valid_entries pg))"
    by blast
  have "sorted_keys pg'"
    using assms(2) sorted_entries_insert[of "valid_entries pg" k p]
      sorted_keys_prefix[of "valid_entries pg" "\<lambda>e. k <s key e"]
    unfolding sorted_keys_def ve by simp
  with ik show "\<exists>pg' evs. insert_key this k p (length (valid_entries pg)) fl pg = Inr (pg', evs) \<and> sorted_keys pg'"
    by blast
next
  assume tm: "length (valid_entries pg) < cardinality"
  from remove_key_valid_entries[OF assms(1) tm, of this k] obtain pg' evs where
    rk: "remove_key this k pg = Inr (k \<in> key ` set (valid_entries pg), pg', evs)"
    and ve: "valid_entries pg' = entries_remove k (valid_entries pg)"
    by blast
  have "sorted_keys pg'"
    using assms(2) sorted_entries_remove[of "valid_entries pg" k]
    unfolding sorted_keys_def ve by simp
  with rk show "\<exists>sh pg' evs. remove_key this k pg = Inr (sh, pg', evs) \<and> sorted_keys pg'"
    by blast
qed

theorem sorted_keys_preserved_witness:
  "length (records sample_leaf) = cardinality \<and> sorted_keys sample_leaf \<and>
   length (valid_entries sample_leaf) = 3 \<and>
   (case insert_key heap_base 20 99 3 True sample_leaf of
      Inl e \<Rightarrow> False | Inr (pg', evs) \<Rightarrow> sorted_keys pg') \<and>
   (case remove_key heap_base 20 sample_leaf of
      Inl e \<Rightarrow> False | Inr (sh, pg', evs) \<Rightarrow> sorted_keys pg')"
proof -
  have a: "length (records sample_leaf) = cardinality" by code_simp
  have b: "sorted_keys sample_leaf" by code_simp
  have c: "length (valid_entries sample_leaf) = 3" by code_simp
  have d: "length (valid_entries sample_leaf) + 1 < cardinality" "length (valid_entries sample_leaf) < cardinality"
    unfolding c by (simp_all add: cardinality_eq)
  from sorted_keys_preserved[OF a b, where this = heap_base and k = 20 and p = 99 and fl = True] d
  obtain pg' evs sh pg'' evs' where
    "insert_key heap_base 20 99 3 True sample_leaf = Inr (pg', evs)" "sorted_keys pg'"
    "remove_key heap_base 20 sample_leaf = Inr (sh, pg'', evs')" "sorted_keys pg''"
    unfolding c by blast
  with a b c show ?thesis by simp
qed

subsection \<open>Inserting a key that is already there\<close>

text \<open>
  Claim C9. When the node already holds a valid entry \<open>e\<close> with the key being inserted
  (and the new handle is not null), \<open>insert_key\<close> keeps every old entry as it is and
  adds the new entry: the valid entries \<open>xs @ ys\<close> become \<open>xs @ new # ys\<close>, where \<open>e\<close> is
  in \<open>xs\<close>, to the left of the new entry, \<open>xs\<close> ends with an entry whose key is not
  greater than the new key, and every key in \<open>ys\<close> is greater.
\<close>

theorem duplicate_key_insert:
  assumes "length (records pg) = cardinality" and "num_entries = length (valid_entries pg)"
    and "num_entries + 1 < cardinality"
    and "e \<in> set (valid_entries pg)" and "key e = k" and "p \<noteq> 0"
  shows "\<exists>pg' evs xs ys.
           insert_key this k p num_entries fl pg = Inr (pg', evs) \<and>
           valid_entries pg = xs @ ys \<and>
           valid_entries pg' = xs @ \<lparr>key = k, ptr = p\<rparr> # ys \<and>
           e \<in> set xs \<and> \<not> k <s key (last xs) \<and> list_all (\<lambda>y. k <s key y) ys"
proof -
  let ?ve = "valid_entries pg"
  let ?xs = "rev (dropWhile (\<lambda>e. k <s key e) (rev ?ve))"
  let ?ys = "rev (takeWhile (\<lambda>e. k <s key e) (rev ?ve))"
  from insert_key_valid_entries[OF assms(1) assms(3)[unfolded assms(2)], of this k p fl] assms(6)
  obtain pg' evs where
    ik: "insert_key this k p num_entries fl pg = Inr (pg', evs)"
    and ve: "valid_entries pg' = entries_insert k p ?ve"
    unfolding assms(2) by auto
  have split: "?ve = ?xs @ ?ys"
    by (metis rev_append rev_rev_ident takeWhile_dropWhile_id)
  have ys: "list_all (\<lambda>y. k <s key y) ?ys"
    by (auto simp: list_all_iff dest: set_takeWhileD)
  have "e \<notin> set ?ys" using ys assms(5) by (auto simp: list_all_iff)
  with assms(4) split have ex: "e \<in> set ?xs" by (metis Un_iff set_append)
  have ne: "dropWhile (\<lambda>e. k <s key e) (rev ?ve) \<noteq> []"
  proof
    assume "dropWhile (\<lambda>e. k <s key e) (rev ?ve) = []"
    with ex show False by simp
  qed
  have "last ?xs = hd (dropWhile (\<lambda>e. k <s key e) (rev ?ve))"
    using ne by (simp add: last_rev)
  with hd_dropWhile[OF ne] have lst: "\<not> k <s key (last ?xs)" by simp
  have "valid_entries pg' = ?xs @ \<lparr>key = k, ptr = p\<rparr> # ?ys"
    unfolding ve entries_insert_def by simp
  with ik split ex ys lst show ?thesis by blast
qed

theorem duplicate_key_insert_witness:
  "length (records sample_leaf) = cardinality \<and> 3 = length (valid_entries sample_leaf) \<and>
   \<lparr>key = 20, ptr = 20\<rparr> \<in> set (valid_entries sample_leaf) \<and>
   (case insert_key heap_base 20 99 3 True sample_leaf of
      Inl e \<Rightarrow> False
    | Inr (pg', evs) \<Rightarrow>
        valid_entries pg' =
          [\<lparr>key = 10, ptr = 10\<rparr>, \<lparr>key = 20, ptr = 20\<rparr>, \<lparr>key = 20, ptr = 99\<rparr>, \<lparr>key = 30, ptr = 30\<rparr>])"
proof -
  have a: "length (records sample_leaf) = cardinality" by code_simp
  have b: "3 = length (valid_entries sample_leaf)" by code_simp
  have c: "(3::nat) + 1 < cardinality" by (simp add: cardinality_eq)
  have d: "\<lparr>key = 20, ptr = 20\<rparr> \<in> set (valid_entries sample_leaf)" by code_simp
  have ve: "valid_entries sample_leaf = [\<lparr>key = 10, ptr = 10\<rparr>, \<lparr>key = 20, ptr = 20\<rparr>, \<lparr>key = 30, ptr = 30\<rparr>]"
    by code_simp
  from duplicate_key_insert[OF a b c d, of 20 99 heap_base True]
  obtain pg' evs xs ys where
    ik: "insert_key heap_base 20 99 3 True sample_leaf = Inr (pg', evs)"
    and 1: "valid_entries sample_leaf = xs @ ys"
    and 2: "valid_entries pg' = xs @ \<lparr>key = 20, ptr = 99\<rparr> # ys"
    and 3: "\<lparr>key = 20, ptr = 20\<rparr> \<in> set xs" and 4: "list_all (\<lambda>y. 20 <s key y) ys"
    and 5: "\<not> 20 <s key (last xs)"
    by auto
  have lt: "(20 :: 64 word) <s 30" "\<not> (20 :: 64 word) <s 20" "\<not> (20 :: 64 word) <s 10" by code_simp+
  have "xs = [\<lparr>key = 10, ptr = 10\<rparr>, \<lparr>key = 20, ptr = 20\<rparr>] \<and> ys = [\<lparr>key = 30, ptr = 30\<rparr>]"
    using 1 3 4 5 lt unfolding ve
    by (auto simp: append_eq_Cons_conv Cons_eq_append_conv)
  with 2 ik a b d show ?thesis by simp
qed

subsection \<open>The shape of \<open>store\<close>\<close>

lemma page_at_setNewRoot [simp]: "page_at (setNewRoot nr s) a = page_at s a"
  by (simp add: page_at_def setNewRoot_def)

lemma insert_key_fields:
  assumes "insert_key this k p n fl pg = Inr (pg', evs)"
  shows "leftmost_ptr pg' = leftmost_ptr pg" "sibling_ptr pg' = sibling_ptr pg" "level pg' = level pg"
    "is_deleted pg' = is_deleted pg" "highest pg' = highest pg"
    "length (records pg') = length (records pg)"
  using insert_key_frame[OF assms] by (simp_all add: same_header_def insert_key_hdr_def)

lemma migrate_frame:
  "migrate sa rs js (sib, cnt, evs) = Inr (sib', cnt', evs') \<Longrightarrow>
   evs' = evs \<and> cnt' = cnt + length js \<and> leftmost_ptr sib' = leftmost_ptr sib \<and>
   sibling_ptr sib' = sibling_ptr sib \<and> level sib' = level sib \<and> highest sib' = highest sib \<and>
   is_deleted sib' = is_deleted sib \<and> length (records sib') = length (records sib)"
proof (induction js arbitrary: sib cnt evs)
  case Nil
  then show ?case by simp
next
  case (Cons j js)
  from Cons.prems obtain sib1 evs1 where
    ik: "insert_key sa (key (rs ! j)) (ptr (rs ! j)) cnt False sib = Inr (sib1, evs1)"
    and rest: "migrate sa rs js (sib1, cnt + 1, evs @ evs1) = Inr (sib', cnt', evs')"
    by (auto split: sum.splits)
  from insert_key_frame[OF ik] have e: "evs1 = []" by simp
  from Cons.IH[OF rest] insert_key_fields[OF ik] e show ?case by simp
qed

lemma store_cases:
  assumes "store (Suc n) this k right fl s = Inr (r, s')"
  obtains
    (deleted) pg where "page_at s this = Inr pg" "is_deleted pg \<noteq> 0" "r = 0" "s' = s"
  | (forward) pg where "page_at s this = Inr pg" "is_deleted pg = 0" "overshoot s pg k = Inr True"
      "store n (sibling_ptr pg) k right True s = Inr (r, s')"
  | (fast) pg num_entries pg' evs where "page_at s this = Inr pg" "is_deleted pg = 0"
      "overshoot s pg k = Inr False" "count pg = Inr num_entries" "num_entries < cardinality - 1"
      "insert_key this k right num_entries fl pg = Inr (pg', evs)"
      "r = this" "s' = log_events evs (set_page this pg' s)"
  | (fair_root) pg num_entries split_key sibling s1 new_root rp evs where
      "page_at s this = Inr pg" "is_deleted pg = 0"
      "overshoot s pg k = Inr False" "count pg = Inr num_entries" "\<not> num_entries < cardinality - 1"
      "fair_split this k right pg num_entries s = Inr (r, split_key, sibling, s1)"
      "root s1 = this" "alloc s1 = Inr new_root"
      "page_ctor_root new_root this split_key sibling (level pg + 1) = (rp, evs)"
      "s' = setNewRoot new_root (log_events evs (set_page new_root rp s1))"
  | (fair_parent) pg num_entries split_key sibling s1 where
      "page_at s this = Inr pg" "is_deleted pg = 0"
      "overshoot s pg k = Inr False" "count pg = Inr num_entries" "\<not> num_entries < cardinality - 1"
      "fair_split this k right pg num_entries s = Inr (r, split_key, sibling, s1)"
      "root s1 \<noteq> this"
      "btree_insert_internal n split_key sibling (level pg + 1) s1 = Inr s'"
proof -
  note a = assms[unfolded store.simps]
  from a obtain pg where pg: "page_at s this = Inr pg"
    by (cases "page_at s this") simp_all
  note b = a[unfolded pg sum.case]
  show thesis
  proof (cases "is_deleted pg \<noteq> 0")
    case True
    with b have "r = 0" "s' = s" by simp_all
    with pg True show thesis by (rule deleted)
  next
    case False
    then have nd: "is_deleted pg = 0" by simp
    note c = b[unfolded nd, simplified]
    from c obtain over where ov: "overshoot s pg k = Inr over"
      by (cases "overshoot s pg k") simp_all
    note d = c[unfolded ov sum.case]
    show thesis
    proof (cases over)
      case True
      with d have "store n (sibling_ptr pg) k right True s = Inr (r, s')" by simp
      with pg nd ov True show thesis by (intro forward) simp_all
    next
      case False
      note e = d[simplified False]
      from e obtain num_entries where cnt: "count pg = Inr num_entries"
        by (cases "count pg") simp_all
      note f = e[unfolded cnt sum.case]
      show thesis
      proof (cases "num_entries < cardinality - 1")
        case True
        note g = f[simplified True]
        from g obtain pg' evs where ik: "insert_key this k right num_entries fl pg = Inr (pg', evs)"
          by (cases "insert_key this k right num_entries fl pg") auto
        from g have "r = this" "s' = log_events evs (set_page this pg' s)"
          unfolding ik by auto
        with pg nd ov False cnt True ik show thesis by (intro fast) simp_all
      next
        case nf: False
        note g = f[simplified nf]
        from g obtain ret split_key sibling s1 where
          fs: "fair_split this k right pg num_entries s = Inr (ret, split_key, sibling, s1)"
          by (cases "fair_split this k right pg num_entries s") auto
        note h = g[unfolded fs sum.case prod.case]
        show thesis
        proof (cases "root s1 = this")
          case True
          note i = h[simplified True]
          from i obtain new_root where al: "alloc s1 = Inr new_root"
            by (cases "alloc s1") simp_all
          obtain rp evs where pc: "page_ctor_root new_root this split_key sibling (level pg + 1) = (rp, evs)"
            by (cases "page_ctor_root new_root this split_key sibling (level pg + 1)")
          from i have "r = ret" "s' = setNewRoot new_root (log_events evs (set_page new_root rp s1))"
            unfolding al using pc by auto
          with pg nd ov False cnt nf fs True al pc show thesis by (intro fair_root) simp_all
        next
          case nr: False
          from h nr have "\<exists>s2. btree_insert_internal n split_key sibling (level pg + 1) s1 = Inr s2 \<and> r = ret \<and> s' = s2"
            by (cases "btree_insert_internal n split_key sibling (level pg + 1) s1") simp_all
          with pg nd ov False cnt nf fs nr show thesis by (intro fair_parent) auto
        qed
      qed
    qed
  qed
qed


lemma btree_insert_internal_cases:
  assumes "btree_insert_internal (Suc n) k right lvl s = Inr s'"
  obtains
    (above) rp where "page_at s (root s) = Inr rp" "level rp < lvl" "s' = s"
  | (stored) rp p r where "page_at s (root s) = Inr rp" "\<not> level rp < lvl"
      "find_level n s (root s) k lvl = Inr p" "store n p k right True s = Inr (r, s')" "r \<noteq> 0"
  | (retry) rp p s1 where "page_at s (root s) = Inr rp" "\<not> level rp < lvl"
      "find_level n s (root s) k lvl = Inr p" "store n p k right True s = Inr (0, s1)"
      "btree_insert_internal n k right lvl s1 = Inr s'"
proof -
  note a = assms[unfolded btree_insert_internal.simps]
  from a obtain rp where rp: "page_at s (root s) = Inr rp"
    by (cases "page_at s (root s)") simp_all
  note b = a[unfolded rp sum.case]
  show thesis
  proof (cases "level rp < lvl")
    case True
    with b have "s' = s" by simp
    with rp True show thesis by (rule above)
  next
    case False
    note c = b[simplified False]
    from c obtain p where fl: "find_level n s (root s) k lvl = Inr p"
      by (cases "find_level n s (root s) k lvl") simp_all
    note d = c[unfolded fl sum.case]
    from d obtain r s1 where st: "store n p k right True s = Inr (r, s1)"
      by (cases "store n p k right True s") auto
    note e = d[unfolded st sum.case prod.case]
    show thesis
    proof (cases "r = 0")
      case True
      with e have "btree_insert_internal n k right lvl s1 = Inr s'" by simp
      with rp False fl st True show thesis by (intro retry) simp_all
    next
      case nz: False
      with e have "s' = s1" by simp
      with rp False fl st nz show thesis by (intro stored) simp_all
    qed
  qed
qed

text \<open>The two halves and the memory that \<open>fair_split\<close> leaves.\<close>

lemma fair_split_shape:
  assumes "fair_split this k right pg n s = Inr (ret, sk, sibling, s1)"
  obtains sib1 cnt sib3 pgN sibX evs5 where
    "alloc s = Inr sibling"
    "sk = key (records pg ! split_point n)"
    "migrate sibling (records pg)
       (if leftmost_ptr pg = 0 then [split_point n ..< n] else [split_point n + 1 ..< n])
       (page_ctor (level pg), 0, []) = Inr (sib1, cnt, [])"
    "sib3 = (if leftmost_ptr pg = 0 then sib1\<lparr>highest := Some sk\<rparr>
             else sib1\<lparr>leftmost_ptr := ptr (records pg ! split_point n), highest := Some sk\<rparr>)
            \<lparr>sibling_ptr := sibling_ptr pg\<rparr>"
    "flushed s1 = flushed s @
       [Clflush sibling PAGESIZE sib3, Clflush this sizeof_header (pg\<lparr>sibling_ptr := sibling\<rparr>)] @ evs5"
    "heap s1 = heap (set_page this pgN (set_page sibling sibX s))"
    "root s1 = root s" "height s1 = height s"
    "sibling_ptr pgN = sibling" "highest pgN = highest pg" "level pgN = level pg"
    "leftmost_ptr pgN = leftmost_ptr pg"
    "sibling_ptr sibX = sibling_ptr pg" "highest sibX = Some sk" "level sibX = level pg"
    "ret = this \<or> ret = sibling"
proof -
  note a = assms[unfolded fair_split_def]
  from a obtain sa where al: "alloc s = Inr sa"
    by (cases "alloc s") simp_all
  let ?m = "split_point n"
  let ?js = "if leftmost_ptr pg = 0 then [?m ..< n] else [?m + 1 ..< n]"
  let ?sk = "key (records pg ! ?m)"
  note b = a[unfolded al sum.case Let_def]
  from b obtain sib1 cnt evs1 where
    mg: "migrate sa (records pg) ?js (page_ctor (level pg), 0, []) = Inr (sib1, cnt, evs1)"
    by (cases "migrate sa (records pg) ?js (page_ctor (level pg), 0, [])") auto
  from migrate_frame[OF mg] have e1: "evs1 = []"
    and f1: "sibling_ptr sib1 = 0" "level sib1 = level pg" "highest sib1 = None"
    by (simp_all add: page_ctor_def)
  define sib3 where "sib3 = (if leftmost_ptr pg = 0 then sib1\<lparr>highest := Some ?sk\<rparr>
             else sib1\<lparr>leftmost_ptr := ptr (records pg ! ?m), highest := Some ?sk\<rparr>)
            \<lparr>sibling_ptr := sibling_ptr pg\<rparr>"
  define pg3 where "pg3 = pg\<lparr>sibling_ptr := sa, switch_counter := split_bump (switch_counter pg),
      records := (records pg)[?m := (records pg ! ?m)\<lparr>ptr := 0\<rparr>]\<rparr>"
  define pg4 where "pg4 = pg3\<lparr>last_index := int ?m - 1\<rparr>"
  have s3: "sibling_ptr sib3 = sibling_ptr pg" "highest sib3 = Some ?sk" "level sib3 = level pg"
    using f1 by (simp_all add: sib3_def)
  have p4: "sibling_ptr pg4 = sa" "highest pg4 = highest pg" "level pg4 = level pg" "leftmost_ptr pg4 = leftmost_ptr pg"
    by (simp_all add: pg4_def pg3_def)
  note c = b[unfolded mg sum.case prod.case]
  let ?evs = "[Clflush (rec_addr this ?m) sizeof_entry pg3, Clflush (this + of_int offsetof_last_index) 2 pg4]"
  have mg': "migrate sa (records pg) ?js (page_ctor (level pg), 0, []) = Inr (sib1, cnt, [])"
    using mg e1 by simp
  show thesis
  proof (cases "k <s ?sk")
    case True
    from c True obtain pg5 evs5 where
      ik: "insert_key this k right (nat (int ?m - 1 + 1)) True pg4 = Inr (pg5, evs5)"
      by (cases "insert_key this k right (nat (int ?m - 1 + 1)) True pg4") (auto simp: pg4_def pg3_def)
    from c True ik have res: "ret = this" "sk = ?sk" "sibling = sa"
      and s1: "s1 = log_events (evs1 @ [Clflush sa PAGESIZE sib3, Clflush this sizeof_header (pg\<lparr>sibling_ptr := sa\<rparr>)] @ ?evs @ evs5)
               (set_page this pg5 (set_page sa sib3 s))"
      unfolding pg4_def pg3_def sib3_def by (auto simp: if_distrib[of "\<lambda>x. x\<lparr>sibling_ptr := _\<rparr>"])
    have g1: "alloc s = Inr sibling" using al res by simp
    have g2: "sk = ?sk" by fact
    have g3: "migrate sibling (records pg) ?js (page_ctor (level pg), 0, []) = Inr (sib1, cnt, [])"
      using mg' res by simp
    have g5: "flushed s1 = flushed s @
       [Clflush sibling PAGESIZE sib3, Clflush this sizeof_header (pg\<lparr>sibling_ptr := sibling\<rparr>)] @ (?evs @ evs5)"
      using s1 e1 res by (simp add: log_events_def set_page_def)
    have g6: "heap s1 = heap (set_page this pg5 (set_page sibling sib3 s))"
      using s1 res by (simp add: log_events_def set_page_def)
    have g7: "root s1 = root s" "height s1 = height s"
      using s1 by (simp_all add: log_events_def set_page_def)
    have g8: "sibling_ptr pg5 = sibling" "highest pg5 = highest pg" "level pg5 = level pg"
      "leftmost_ptr pg5 = leftmost_ptr pg"
      using insert_key_fields[OF ik] p4 res by simp_all
    have g9: "sibling_ptr sib3 = sibling_ptr pg" "highest sib3 = Some sk" "level sib3 = level pg"
      using s3 res by simp_all
    have g10: "ret = this \<or> ret = sibling" using res by simp
    show thesis
      by (rule that[OF g1 g2 g3 _ g5 g6 g7 g8 g9 g10]) (simp add: sib3_def res)
  next
    case False
    from c False obtain sib4 evs5 where
      ik: "insert_key sa k right cnt True sib3 = Inr (sib4, evs5)"
      by (cases "insert_key sa k right cnt True sib3") (auto simp: sib3_def if_distrib[of "\<lambda>x. x\<lparr>sibling_ptr := _\<rparr>"])
    from c False ik have res: "ret = sa" "sk = ?sk" "sibling = sa"
      and s1: "s1 = log_events (evs1 @ [Clflush sa PAGESIZE sib3, Clflush this sizeof_header (pg\<lparr>sibling_ptr := sa\<rparr>)] @ ?evs @ evs5)
               (set_page this pg4 (set_page sa sib4 s))"
      unfolding pg4_def pg3_def sib3_def by (auto simp: if_distrib[of "\<lambda>x. x\<lparr>sibling_ptr := _\<rparr>"])
    have g1: "alloc s = Inr sibling" using al res by simp
    have g2: "sk = ?sk" by fact
    have g3: "migrate sibling (records pg) ?js (page_ctor (level pg), 0, []) = Inr (sib1, cnt, [])"
      using mg' res by simp
    have g5: "flushed s1 = flushed s @
       [Clflush sibling PAGESIZE sib3, Clflush this sizeof_header (pg\<lparr>sibling_ptr := sibling\<rparr>)] @ (?evs @ evs5)"
      using s1 e1 res by (simp add: log_events_def set_page_def)
    have g6: "heap s1 = heap (set_page this pg4 (set_page sibling sib4 s))"
      using s1 res by (simp add: log_events_def set_page_def)
    have g7: "root s1 = root s" "height s1 = height s"
      using s1 by (simp_all add: log_events_def set_page_def)
    have g8: "sibling_ptr pg4 = sibling" "highest pg4 = highest pg" "level pg4 = level pg"
      "leftmost_ptr pg4 = leftmost_ptr pg"
      using p4 res by simp_all
    have g9: "sibling_ptr sib4 = sibling_ptr pg" "highest sib4 = Some sk" "level sib4 = level pg"
      using insert_key_fields[OF ik] s3 res by simp_all
    have g10: "ret = this \<or> ret = sibling" using res by simp
    show thesis
      by (rule that[OF g1 g2 g3 _ g5 g6 g7 g8 g9 g10]) (simp add: sib3_def res)
  qed
qed


subsection \<open>Sibling pointers lead to pages made by a split\<close>

lemma page_at_heap_cong: "heap s = heap s' \<Longrightarrow> page_at s a = page_at s' a"
  by (simp add: page_at_def)

lemma siblings_assigned_cong: "heap s = heap s' \<Longrightarrow> siblings_assigned s = siblings_assigned s'"
  by (simp add: siblings_assigned_def page_at_heap_cong[of s s'])

lemma siblings_assigned_log_events [simp]: "siblings_assigned (log_events evs s) = siblings_assigned s"
  by (rule siblings_assigned_cong) (simp add: log_events_def)

lemma siblings_assigned_setNewRoot [simp]: "siblings_assigned (setNewRoot nr s) = siblings_assigned s"
  by (rule siblings_assigned_cong) (simp add: setNewRoot_def)


lemma siblings_assigned_update:
  assumes inv: "siblings_assigned s"
    and pa: "page_at s this = Inr pg"
    and sp: "sibling_ptr pg' = sibling_ptr pg"
    and hi: "highest pg' = highest pg"
  shows "siblings_assigned (set_page this pg' s)"
  unfolding siblings_assigned_def
proof (intro allI impI)
  fix a q
  assume q: "page_at (set_page this pg' s) a = Inr q" and nz: "sibling_ptr q \<noteq> 0"
  have "\<exists>q0. page_at s a = Inr q0 \<and> sibling_ptr q0 = sibling_ptr q"
    using q pa sp by (auto simp: page_at_set_page split: if_splits)
  then obtain q0 where q0: "page_at s a = Inr q0" "sibling_ptr q0 = sibling_ptr q" by blast
  with inv nz obtain t where t: "page_at s (sibling_ptr q) = Inr t" "highest t \<noteq> None"
    unfolding siblings_assigned_def by metis
  show "\<exists>t. page_at (set_page this pg' s) (sibling_ptr q) = Inr t \<and> highest t \<noteq> None"
    using t pa hi by (auto simp: page_at_set_page)
qed

lemma siblings_assigned_fresh:
  assumes inv: "siblings_assigned s"
    and fr: "page_at s a = Inl e"
    and sp: "sibling_ptr pg = 0"
  shows "siblings_assigned (set_page a pg s)"
  unfolding siblings_assigned_def
proof (intro allI impI)
  fix b q
  assume q: "page_at (set_page a pg s) b = Inr q" and nz: "sibling_ptr q \<noteq> 0"
  from q nz sp have ba: "b \<noteq> a" and q0: "page_at s b = Inr q"
    by (auto simp: page_at_set_page split: if_splits)
  with inv nz obtain t where t: "page_at s (sibling_ptr q) = Inr t" "highest t \<noteq> None"
    unfolding siblings_assigned_def by metis
  from t fr have "sibling_ptr q \<noteq> a" by auto
  with t show "\<exists>t. page_at (set_page a pg s) (sibling_ptr q) = Inr t \<and> highest t \<noteq> None"
    by (simp add: page_at_set_page)
qed

lemma siblings_assigned_fair_split:
  assumes inv: "siblings_assigned s"
    and pa: "page_at s this = Inr pg"
    and fs: "fair_split this k right pg n s = Inr (ret, sk, sibling, s1)"
  shows "siblings_assigned s1"
proof -
  from fs obtain pgN sibX where
    al: "alloc s = Inr sibling"
    and hp: "heap s1 = heap (set_page this pgN (set_page sibling sibX s))"
    and n: "sibling_ptr pgN = sibling" "highest pgN = highest pg"
    and x: "sibling_ptr sibX = sibling_ptr pg" "highest sibX = Some sk"
    by (rule fair_split_shape)
  from alloc_fresh[OF al] have fr: "page_at s sibling = Inl InvalidPointer" by simp
  with pa have ne: "this \<noteq> sibling" by auto
  have at1: "page_at s1 a = (if a = this then Inr pgN else if a = sibling then Inr sibX else page_at s a)" for a
    by (simp add: page_at_heap_cong[OF hp] page_at_set_page)
  have keep: "\<exists>t. page_at s1 b = Inr t \<and> highest t \<noteq> None"
    if "page_at s b = Inr t0" "highest t0 \<noteq> None" for b t0
    using that pa fr n by (auto simp: at1)
  have old: "\<exists>t. page_at s1 (sibling_ptr q) = Inr t \<and> highest t \<noteq> None"
    if "page_at s b = Inr q" "sibling_ptr q \<noteq> 0" for b q
  proof -
    from inv that obtain t0 where "page_at s (sibling_ptr q) = Inr t0" "highest t0 \<noteq> None"
      unfolding siblings_assigned_def by metis
    then show ?thesis by (rule keep)
  qed
  show ?thesis
    unfolding siblings_assigned_def
  proof (intro allI impI)
    fix a q
    assume q: "page_at s1 a = Inr q" and nz: "sibling_ptr q \<noteq> 0"
    consider "a = this" "q = pgN" | "a \<noteq> this" "a = sibling" "q = sibX" | "a \<noteq> this" "a \<noteq> sibling" "page_at s a = Inr q"
      using q by (auto simp: at1 split: if_splits)
    then show "\<exists>t. page_at s1 (sibling_ptr q) = Inr t \<and> highest t \<noteq> None"
    proof cases
      case 1
      then show ?thesis using n x ne by (simp add: at1)
    next
      case 2
      with nz x have "sibling_ptr pg \<noteq> 0" "sibling_ptr q = sibling_ptr pg" by simp_all
      with old[OF pa] show ?thesis by simp
    next
      case 3
      from old[OF 3(3) nz] show ?thesis .
    qed
  qed
qed

lemma page_ctor_root_sibling:
  "page_ctor_root nr left k right lvl = (rp, evs) \<Longrightarrow> sibling_ptr rp = 0"
  by (auto simp: page_ctor_root_def Let_def)

lemma siblings_assigned_store:
  "siblings_assigned s \<Longrightarrow>
     (\<forall>this k right fl r s'. store n this k right fl s = Inr (r, s') \<longrightarrow> siblings_assigned s') \<and>
     (\<forall>k right lvl s'. btree_insert_internal n k right lvl s = Inr s' \<longrightarrow> siblings_assigned s')"
proof (induction n arbitrary: s)
  case 0
  then show ?case by simp
next
  case (Suc n)
  note inv = Suc.prems
  have st: "siblings_assigned s'" if "store (Suc n) this k right fl s = Inr (r, s')" for this k right fl r s'
    using that
  proof (cases rule: store_cases)
    case (deleted pg)
    with inv show ?thesis by simp
  next
    case (forward pg)
    with Suc.IH[OF inv] show ?thesis by blast
  next
    case (fast pg num_entries pg' evs)
    from insert_key_fields[OF fast(6)] have "sibling_ptr pg' = sibling_ptr pg" "highest pg' = highest pg"
      by simp_all
    from siblings_assigned_update[OF inv fast(1) this] fast(8) show ?thesis by simp
  next
    case (fair_root pg num_entries split_key sibling s1 new_root rp evs)
    from siblings_assigned_fair_split[OF inv fair_root(1) fair_root(6)] have i1: "siblings_assigned s1" .
    from alloc_fresh[OF fair_root(8)] have "page_at s1 new_root = Inl InvalidPointer" by simp
    from siblings_assigned_fresh[OF i1 this page_ctor_root_sibling[OF fair_root(9)]] fair_root(10)
    show ?thesis by simp
  next
    case (fair_parent pg num_entries split_key sibling s1)
    from siblings_assigned_fair_split[OF inv fair_parent(1) fair_parent(6)] have i1: "siblings_assigned s1" .
    with Suc.IH[OF i1] fair_parent(8) show ?thesis by blast
  qed
  have bi: "siblings_assigned s'" if "btree_insert_internal (Suc n) k right lvl s = Inr s'" for k right lvl s'
    using that
  proof (cases rule: btree_insert_internal_cases)
    case (above rp)
    with inv show ?thesis by simp
  next
    case (stored rp p r)
    with Suc.IH[OF inv] show ?thesis by blast
  next
    case (retry rp p s1)
    with Suc.IH[OF inv] have "siblings_assigned s1" by blast
    with Suc.IH[OF this] retry(5) show ?thesis by blast
  qed
  from st bi show ?case by blast
qed

lemma siblings_assigned_btree_insert:
  "siblings_assigned s \<Longrightarrow> btree_insert n k right s = Inr s' \<Longrightarrow> siblings_assigned s'"
proof (induction n arbitrary: s)
  case 0
  then show ?case by simp
next
  case (Suc n)
  from Suc.prems(2) obtain p r s1 where
    st: "store n p k right True s = Inr (r, s1)"
    and rest: "if r = 0 then btree_insert n k right s1 = Inr s' else s' = s1"
    by (auto split: sum.splits if_splits)
  from siblings_assigned_store[OF Suc.prems(1)] st have i1: "siblings_assigned s1" by blast
  show ?case
  proof (cases "r = 0")
    case True
    with rest Suc.IH[OF i1] show ?thesis by simp
  next
    case False
    with rest i1 show ?thesis by simp
  qed
qed

lemma siblings_assigned_insert_all:
  "siblings_assigned s \<Longrightarrow> insert_all n kvs s = Inr s' \<Longrightarrow> siblings_assigned s'"
proof (induction kvs arbitrary: s)
  case Nil
  then show ?case by simp
next
  case (Cons kv kvs)
  obtain k v where kv: "kv = (k, v)" by (cases kv)
  from Cons.prems(2) obtain s1 where
    b: "btree_insert n k v s = Inr s1" and r: "insert_all n kvs s1 = Inr s'"
    unfolding kv by (auto split: sum.splits)
  from Cons.IH[OF siblings_assigned_btree_insert[OF Cons.prems(1) b] r] show ?case .
qed











subsection \<open>Deleting a key that is not there\<close>

lemma absent_in_linked_leafD:
  assumes "absent_in_linked_leaf s p k"
  obtains rp lf where "page_at s (root s) = Inr rp" "leftmost_ptr rp \<noteq> 0"
    "linear_search s rp k = Inr p" "page_at s p = Inr lf" "p \<noteq> 0" "leftmost_ptr lf = 0"
    "sibling_ptr lf \<noteq> 0" "linear_search s lf k = Inr 0"
  using assms unfolding absent_in_linked_leaf_def by (auto split: sum.splits)

lemma find_leaf_absent:
  assumes "absent_in_linked_leaf s p k"
  shows "find_leaf n s (root s) k = Inl OutOfFuel \<or> find_leaf n s (root s) k = Inr p"
proof -
  from assms obtain rp lf where f: "page_at s (root s) = Inr rp" "leftmost_ptr rp \<noteq> 0"
    "linear_search s rp k = Inr p" "page_at s p = Inr lf" "leftmost_ptr lf = 0"
    by (rule absent_in_linked_leafD)
  show ?thesis
  proof (cases n)
    case 0
    then show ?thesis by simp
  next
    case (Suc m)
    then show ?thesis using f by (cases m) simp_all
  qed
qed

lemma follow_siblings_absent:
  assumes "absent_in_linked_leaf s p k"
  shows "follow_siblings n s p k = Inl OutOfFuel \<or> follow_siblings n s p k = Inr (p, 0)"
proof -
  from assms obtain lf where f: "page_at s p = Inr lf" "sibling_ptr lf \<noteq> 0"
    "linear_search s lf k = Inr 0"
    by (rule absent_in_linked_leafD)
  then show ?thesis by (cases n) auto
qed

lemma btree_delete_absent_step:
  assumes "absent_in_linked_leaf s p k" and "remove p k s = Inr (False, s')"
  shows "btree_delete (Suc n) k s = Inl OutOfFuel \<or> btree_delete (Suc n) k s = btree_delete n k s'"
proof -
  from assms(1) have nz: "p \<noteq> 0" by (rule absent_in_linked_leafD)
  from find_leaf_absent[OF assms(1), of n] follow_siblings_absent[OF assms(1), of n]
  show ?thesis using nz assms(2) by auto
qed

lemma btree_delete_absent_loop:
  assumes "absent_in_linked_leaf s p k" and "remove p k s = Inr (False, s)"
  shows "btree_delete n k s = Inl OutOfFuel"
proof (induction n)
  case 0
  then show ?case by simp
next
  case (Suc n)
  with btree_delete_absent_step[OF assms, of n] show ?case by auto
qed

lemma btree_delete_absent_diverges:
  assumes "absent_in_linked_leaf s p k" and "remove p k s = Inr (False, s')"
    and "absent_in_linked_leaf s' p k" and "remove p k s' = Inr (False, s')"
  shows "btree_delete n k s = Inl OutOfFuel"
proof (cases n)
  case 0
  then show ?thesis by simp
next
  case (Suc m)
  with btree_delete_absent_step[OF assms(1,2), of m] btree_delete_absent_loop[OF assms(3,4), of m]
  show ?thesis by auto
qed

lemma grown_tree_delete_run:
  "case insert_all 3 (keys_as_handles [1 .. 29]) btree_ctor of
     Inl e \<Rightarrow> False
   | Inr s \<Rightarrow>
       list_all (\<lambda>(a, pg). list_all (\<lambda>e. key e \<noteq> 0) (valid_entries pg)) (heap s) \<and>
       absent_in_linked_leaf s heap_base 0 \<and>
       (case remove heap_base 0 s of
          Inl e \<Rightarrow> False
        | Inr (ret, s') \<Rightarrow> \<not> ret \<and> s' \<noteq> s \<and> absent_in_linked_leaf s' heap_base 0 \<and>
                           remove heap_base 0 s' = Inr (False, s'))"
  by code_simp

text \<open>
  Claim C2 at a failing input: the keys 1 to 29 inserted into the empty tree as their
  own handles, then \<open>btree_delete(0)\<close>. No entry of any node has the key 0, and the
  delete does not return: whatever the fuel, the model runs out of it. The descent ends
  in the left leaf, which has a sibling, so \<open>p\<close> is not \<open>NULL\<close>; \<open>remove\<close> answers
  \<open>false\<close>, and \<open>btree_delete\<close> calls itself on a tree in which the same happens again.
  The first \<open>remove\<close> has also changed the tree (the leaf's \<open>switch_counter\<close>).
\<close>

theorem btree_delete_absent_key_never_returns:
  "case insert_all 3 (keys_as_handles [1 .. 29]) btree_ctor of
     Inl e \<Rightarrow> False
   | Inr s \<Rightarrow>
       list_all (\<lambda>(a, pg). list_all (\<lambda>e. key e \<noteq> 0) (valid_entries pg)) (heap s) \<and>
       (\<forall>n. btree_delete n 0 s = Inl OutOfFuel) \<and>
       (case remove heap_base 0 s of Inl e \<Rightarrow> False | Inr (ret, s') \<Rightarrow> \<not> ret \<and> s' \<noteq> s)"
proof -
  note g = grown_tree_delete_run
  obtain s where s: "insert_all 3 (keys_as_handles [1 .. 29]) btree_ctor = Inr s"
    using g by (cases "insert_all 3 (keys_as_handles [1 .. 29]) btree_ctor") simp_all
  note h = g[unfolded s sum.case]
  from h obtain ret s' where r: "remove heap_base 0 s = Inr (ret, s')"
    by (cases "remove heap_base 0 s") auto
  from h r have f: "list_all (\<lambda>(a, pg). list_all (\<lambda>e. key e \<noteq> 0) (valid_entries pg)) (heap s)"
    "absent_in_linked_leaf s heap_base 0" "\<not> ret" "s' \<noteq> s"
    "absent_in_linked_leaf s' heap_base 0" "remove heap_base 0 s' = Inr (False, s')"
    by simp_all
  from r f(3) have r': "remove heap_base 0 s = Inr (False, s')" by simp
  have "btree_delete n 0 s = Inl OutOfFuel" for n
    using f(2) r' f(5) f(6) by (rule btree_delete_absent_diverges)
  with f r show ?thesis unfolding s by simp
qed

subsection \<open>The order of the flushes at a FAIR split\<close>



lemma valid_entries_page_ctor [simp]: "valid_entries (page_ctor lvl) = []"
proof -
  obtain n where c: "cardinality = Suc n" by (cases cardinality) (simp_all add: cardinality_eq)
  have "records (page_ctor lvl) = entry_ctor\<lparr>ptr := 0\<rparr> # replicate n entry_ctor"
    unfolding page_ctor_def c by simp
  then show ?thesis by (simp add: valid_entries_def)
qed

lemma length_records_page_ctor [simp]: "length (records (page_ctor lvl)) = cardinality"
  by (simp add: page_ctor_def)



lemma valid_entries_records_update [simp]:
  "valid_entries (pg\<lparr>highest := h\<rparr>) = valid_entries pg"
  "valid_entries (pg\<lparr>sibling_ptr := sp\<rparr>) = valid_entries pg"
  "valid_entries (pg\<lparr>leftmost_ptr := lp\<rparr>) = valid_entries pg"
  by (simp_all add: valid_entries_def)






end
